theory Spec2Isabelle
  imports Complex_Main "HOL-Library.AList"
begin

section \<open>Go runtime helpers\<close>

text \<open>A Go runtime panic. The only one this code can raise is a string slice
  \<open>s[:n]\<close> with \<open>n > len(s)\<close>; it carries the bound and the length.\<close>

datatype panic = SliceBoundsOutOfRange nat nat

text \<open>The errors the code returns as values.\<close>

datatype error =
    DbError
  | ErrNotFound
  | ErrLimitReached
  | MarshalError
  | CreateRequestError
  | TransportError
  | ReadBodyError
  | ApiError nat string
  | UnmarshalError

text \<open>\<open>s[:n]\<close> on a Go string: the first \<open>n\<close> bytes, or a panic when the
  string is shorter.\<close>

definition slice_to :: "string \<Rightarrow> nat \<Rightarrow> panic + string" where
  "slice_to s n = (if n \<le> length s then Inr (take n s) else Inl (SliceBoundsOutOfRange n (length s)))"

text \<open>\<open>truncate\<close> of the webhook server: the guarded version of the same cut (named
  \<open>truncate_str\<close> here).\<close>

definition truncate_str :: "string \<Rightarrow> nat \<Rightarrow> string" where
  "truncate_str s n = (if length s \<le> n then s else take n s @ ''...'')"

text \<open>The largest int64.\<close>

definition maxInt64 :: int where
  "maxInt64 = 2 ^ 63 - 1"

section \<open>Data model (packages storage and tonapi)\<close>

record Wallet =
  ID :: int
  UserID :: int
  Name :: string
  AddressRaw :: string
  AddressDisplay :: string
  MinAmountTON :: "real option"
  CreatedAt :: int

record Account =
  Address :: string
  AccountName :: string
  AccountIsScam :: bool
  IsWallet :: bool

record TonTransfer =
  Sender :: Account
  Recipient :: Account
  Amount :: int
  Comment :: string

record JettonInfo =
  JettonAddress :: string
  JettonName :: string
  Symbol :: string
  Decimals :: int
  Image :: string

record JettonSwap =
  Dex :: string
  TonIn :: int
  TonOut :: int
  AmountIn :: string
  AmountOut :: string
  JettonMasterIn :: "JettonInfo option"
  JettonMasterOut :: "JettonInfo option"
  Router :: Account

record Action =
  ActionType :: string
  Status :: string
  ActionTonTransfer :: "TonTransfer option"
  ActionJettonSwap :: "JettonSwap option"

record Event =
  EventID :: string
  Timestamp :: int
  Actions :: "Action list"
  IsScam :: bool

text \<open>\<open>WebhookPayload\<close>: the \<open>Event\<close> pointer is \<open>None\<close> when nil.\<close>

record WebhookPayload =
  EventType :: string
  AccountID :: string
  TxHash :: string
  Lt :: int
  InlineEvent :: "Event option"

section \<open>Storage (package storage)\<close>

text \<open>
  The SQLite database behind \<open>Storage\<close>: the rows of \<open>wallets\<close>, the
  AUTOINCREMENT counter of that table (the largest rowid ever handed out) and the rows
  of \<open>processed_events\<close> with primary key (wallet_id, event_id).

  \<open>Storage.db\<close> is a \<open>*sql.DB\<close>, a pool of connections: every \<open>Exec\<close>,
  \<open>Query\<close> and \<open>QueryRow\<close> runs on the connection the pool hands out for it,
  and SQLite's \<open>changes()\<close> (rows changed by the last completed INSERT, UPDATE or
  DELETE) is kept per connection. \<open>changes\<close> is that counter for each connection.

  The environment is two scripts. \<open>faults\<close> says for each upcoming statement
  whether it fails (busy database, I/O error); an empty script means that no further
  statement fails. \<open>conns\<close> says for each upcoming statement that runs which
  connection the pool hands out; an empty script means connection 0, which is what a
  lone goroutine gets every time. Other goroutines using the database are what makes
  the pool hand out another connection.
\<close>

record Storage =
  wallets :: "Wallet list"
  wallets_seq :: int
  processed_events :: "(int \<times> string) list"
  changes :: "nat \<Rightarrow> nat"
  faults :: "bool list"
  conns :: "nat list"

definition next_fault :: "Storage \<Rightarrow> bool \<times> Storage" where
  "next_fault s = (case faults s of [] \<Rightarrow> (False, s) | f # fs \<Rightarrow> (f, s\<lparr>faults := fs\<rparr>))"

definition next_conn :: "Storage \<Rightarrow> nat \<times> Storage" where
  "next_conn s = (case conns s of [] \<Rightarrow> (0, s) | c # cs \<Rightarrow> (c, s\<lparr>conns := cs\<rparr>))"

text \<open>\<open>INSERT OR IGNORE INTO processed_events (wallet_id, event_id) VALUES (?, ?)\<close>
  on connection \<open>c\<close>.\<close>

definition insert_or_ignore :: "nat \<Rightarrow> int \<Rightarrow> string \<Rightarrow> Storage \<Rightarrow> Storage" where
  "insert_or_ignore c walletID eventID s =
     (if (walletID, eventID) \<in> set (processed_events s) then s\<lparr>changes := (changes s)(c := 0)\<rparr>
      else s\<lparr>processed_events := processed_events s @ [(walletID, eventID)],
             changes := (changes s)(c := 1)\<rparr>)"

text \<open>
  \<open>MarkEventProcessed\<close> is two calls on the pool: \<open>s.db.Exec\<close> of the insert,
  and then \<open>s.db.QueryRow("SELECT changes()")\<close>, which reads the counter of
  whichever connection it runs on. \<open>mark_insert\<close> is the first call (its result is
  the error, if any) and \<open>mark_changes\<close> the second with the final
  \<open>count > 0\<close>; either may fail, and then the result is \<open>(false, err)\<close>.
\<close>

definition mark_insert :: "Storage \<Rightarrow> int \<Rightarrow> string \<Rightarrow> error option \<times> Storage" where
  "mark_insert s walletID eventID =
     (case next_fault s of
        (True, s1) \<Rightarrow> (Some DbError, s1)
      | (False, s1) \<Rightarrow>
          (case next_conn s1 of (c, s2) \<Rightarrow> (None, insert_or_ignore c walletID eventID s2)))"

definition mark_changes :: "Storage \<Rightarrow> (error + bool) \<times> Storage" where
  "mark_changes s =
     (case next_fault s of
        (True, s1) \<Rightarrow> (Inl DbError, s1)
      | (False, s1) \<Rightarrow>
          (case next_conn s1 of (c, s2) \<Rightarrow> (Inr (changes s2 c > 0), s2)))"

definition MarkEventProcessed :: "Storage \<Rightarrow> int \<Rightarrow> string \<Rightarrow> (error + bool) \<times> Storage" where
  "MarkEventProcessed s walletID eventID =
     (case mark_insert s walletID eventID of
        (Some err, s1) \<Rightarrow> (Inl err, s1)
      | (None, s1) \<Rightarrow> mark_changes s1)"

text \<open>
  Calls of \<open>MarkEventProcessed\<close> from several goroutines: each call is pending with
  its arguments, then has run its insert, then is finished with its result. A schedule
  names, step by step, the call that runs its next pool call.
\<close>

datatype mark_phase = Pending int string | Inserted | Finished "error + bool"

fun mark_step :: "mark_phase \<Rightarrow> Storage \<Rightarrow> mark_phase \<times> Storage" where
  "mark_step (Pending walletID eventID) s =
     (case mark_insert s walletID eventID of
        (Some err, s1) \<Rightarrow> (Finished (Inl err), s1)
      | (None, s1) \<Rightarrow> (Inserted, s1))"
| "mark_step Inserted s = (case mark_changes s of (r, s1) \<Rightarrow> (Finished r, s1))"
| "mark_step (Finished r) s = (Finished r, s)"

fun interleave :: "nat list \<Rightarrow> mark_phase list \<Rightarrow> Storage \<Rightarrow> mark_phase list \<times> Storage" where
  "interleave [] ps s = (ps, s)"
| "interleave (i # sched) ps s =
     (if i < length ps then
        (case mark_step (ps ! i) s of (p, s1) \<Rightarrow> interleave sched (ps[i := p]) s1)
      else interleave sched ps s)"

text \<open>\<open>GetWalletsByRaw\<close>: \<open>SELECT ... FROM wallets WHERE address_raw = ?\<close>\<close>

definition GetWalletsByRaw :: "Storage \<Rightarrow> string \<Rightarrow> (error + Wallet list) \<times> Storage" where
  "GetWalletsByRaw s addressRaw =
     (case next_fault s of
        (True, s1) \<Rightarrow> (Inl DbError, s1)
      | (False, s1) \<Rightarrow>
          (case next_conn s1 of
             (c, s2) \<Rightarrow> (Inr (filter (\<lambda>w. AddressRaw w = addressRaw) (wallets s2)), s2)))"

text \<open>\<open>GetAllWallets\<close>: \<open>SELECT ... FROM wallets\<close>\<close>

definition GetAllWallets :: "Storage \<Rightarrow> (error + Wallet list) \<times> Storage" where
  "GetAllWallets s =
     (case next_fault s of
        (True, s1) \<Rightarrow> (Inl DbError, s1)
      | (False, s1) \<Rightarrow> (case next_conn s1 of (c, s2) \<Rightarrow> (Inr (wallets s2), s2)))"

text \<open>\<open>RemoveWallet\<close>: two DELETE statements; the second runs only when the
  first did not fail, and its error is the result.\<close>

definition RemoveWallet :: "Storage \<Rightarrow> int \<Rightarrow> int \<Rightarrow> error option \<times> Storage" where
  "RemoveWallet s userID walletID =
     (case next_fault s of
        (True, s1) \<Rightarrow> (Some DbError, s1)
      | (False, s1) \<Rightarrow>
          (case next_conn s1 of
             (c, s2) \<Rightarrow>
               (let keep = filter (\<lambda>w. \<not> (UserID w = userID \<and> ID w = walletID)) (wallets s2);
                    s3 = s2\<lparr>wallets := keep,
                            changes := (changes s2)(c := length (wallets s2) - length keep)\<rparr>
                in case next_fault s3 of
                  (True, s4) \<Rightarrow> (Some DbError, s4)
                | (False, s4) \<Rightarrow>
                    (case next_conn s4 of
                       (d, s5) \<Rightarrow>
                         (let rest = filter (\<lambda>pe. fst pe \<noteq> walletID) (processed_events s5)
                          in (None, s5\<lparr>processed_events := rest,
                                        changes := (changes s5)
                                          (d := length (processed_events s5) - length rest)\<rparr>))))))"

text \<open>\<open>AddWallet\<close>: the count query, the limit check, the INSERT. The table's id
  is \<open>INTEGER PRIMARY KEY AUTOINCREMENT\<close>: the new id is one more than the largest
  id the table has ever held, and when that is the largest int64 the INSERT fails.
  \<open>now\<close> is \<open>time.Now().Unix()\<close>.\<close>

definition AddWallet ::
  "Storage \<Rightarrow> int \<Rightarrow> string \<Rightarrow> string \<Rightarrow> string \<Rightarrow> int \<Rightarrow> int \<Rightarrow> (error + Wallet) \<times> Storage" where
  "AddWallet s userID name addressRaw addressDisplay maxWallets now =
     (case next_fault s of
        (True, s1) \<Rightarrow> (Inl DbError, s1)
      | (False, s1) \<Rightarrow>
          (case next_conn s1 of
             (c, s2) \<Rightarrow>
               (let count = int (length (filter (\<lambda>w. UserID w = userID) (wallets s2))) in
                if count \<ge> maxWallets then (Inl ErrLimitReached, s2)
                else case next_fault s2 of
                  (True, s3) \<Rightarrow> (Inl DbError, s3)
                | (False, s3) \<Rightarrow>
                    (case next_conn s3 of
                       (d, s4) \<Rightarrow>
                         if wallets_seq s4 \<ge> maxInt64 then (Inl DbError, s4)
                         else
                           (let w = \<lparr>ID = wallets_seq s4 + 1, UserID = userID, Name = name,
                                     AddressRaw = addressRaw, AddressDisplay = addressDisplay,
                                     MinAmountTON = None, CreatedAt = now\<rparr>
                            in (Inr w, s4\<lparr>wallets := wallets s4 @ [w],
                                          wallets_seq := wallets_seq s4 + 1,
                                          changes := (changes s4)(d := 1)\<rparr>))))))"

text \<open>No wallet id in the table or in the ledger is above the AUTOINCREMENT
  counter.\<close>

definition ids_bounded :: "Storage \<Rightarrow> bool" where
  "ids_bounded s =
     (list_all (\<lambda>w. ID w \<le> wallets_seq s) (wallets s) \<and>
      list_all (\<lambda>pe. fst pe \<le> wallets_seq s) (processed_events s))"

section \<open>Webhook receiver (package webhook, Server)\<close>

text \<open>What the receiver does to the outside, in order: log lines (level and
  message), storage calls, the upstream fetch, and the handler goroutines it starts.\<close>

datatype level = Debug | Info | Warn | Error

datatype effect =
    Log level string
  | StorageLookup string
  | ApiFetch string
  | LedgerInsert int string
  | Dispatch Wallet Event

text \<open>An inbound request: the method, and what \<open>json.NewDecoder(r.Body).Decode\<close>
  makes of the body (\<open>Inl\<close> when it returns an error).\<close>

record Request =
  Method :: string
  Body :: "unit + WebhookPayload"

definition StatusOK :: nat where "StatusOK = 200"
definition StatusBadRequest :: nat where "StatusBadRequest = 400"
definition StatusMethodNotAllowed :: nat where "StatusMethodNotAllowed = 405"

text \<open>
  \<open>handleWebhook\<close> returns the status written, its log lines, and the payload it
  hands to \<open>go s.processTransaction\<close> (if any). The arguments of \<open>s.log.Debug\<close>
  are evaluated before the call whatever the log level, so \<open>payload.AccountID[:10]\<close>
  runs on every payload that gets that far; a panic there leaves the handler before
  any status is written.
\<close>

definition handleWebhook :: "Request \<Rightarrow> panic + (nat \<times> effect list \<times> WebhookPayload option)" where
  "handleWebhook r =
     (if Method r \<noteq> ''POST'' then Inr (StatusMethodNotAllowed, [], None)
      else case Body r of
        Inl _ \<Rightarrow> Inr (StatusBadRequest, [Log Warn ''invalid webhook payload''], None)
      | Inr payload \<Rightarrow>
          if EventType payload = ''mempool_msg'' \<or> EventType payload = ''new_contract''
          then Inr (StatusOK, [], None)
          else if AccountID payload = []
          then Inr (StatusOK, [Log Warn ''missing account_id in webhook''], None)
          else case slice_to (AccountID payload) 10 of
            Inl p \<Rightarrow> Inl p
          | Inr _ \<Rightarrow> Inr (StatusOK, [Log Debug ''webhook received''], Some payload))"

text \<open>The loop of \<open>processTransaction\<close> over the matching wallets. The handler
  goroutines touch no storage, so starting one is recorded as an effect.\<close>

fun mark_and_dispatch :: "Wallet list \<Rightarrow> Event \<Rightarrow> Storage \<Rightarrow> effect list \<times> Storage" where
  "mark_and_dispatch [] event s = ([], s)"
| "mark_and_dispatch (wallet # rest) event s =
     (case MarkEventProcessed s (ID wallet) (EventID event) of
        (Inl err, s1) \<Rightarrow>
          (let (es, s2) = mark_and_dispatch rest event s1
           in (LedgerInsert (ID wallet) (EventID event) # Log Error ''mark event processed'' # es, s2))
      | (Inr isNew, s1) \<Rightarrow>
          if \<not> isNew then
            (let (es, s2) = mark_and_dispatch rest event s1
             in (LedgerInsert (ID wallet) (EventID event) # Log Debug ''event already processed'' # es, s2))
          else
            (let (es, s2) = mark_and_dispatch rest event s1
             in (LedgerInsert (ID wallet) (EventID event) # Dispatch wallet event # es, s2)))"

text \<open>The event of a payload: the inline one, else the one fetched by hash.
  \<open>fetched\<close> is what \<open>GetEventByHash\<close> returns if it is called.\<close>

definition get_event :: "WebhookPayload \<Rightarrow> (error + Event) \<Rightarrow> effect list \<times> Event option" where
  "get_event payload fetched =
     (case InlineEvent payload of
        Some ev \<Rightarrow> ([], Some ev)
      | None \<Rightarrow>
          if TxHash payload \<noteq> [] then
            (case fetched of
               Inl err \<Rightarrow> ([ApiFetch (TxHash payload), Log Warn ''fetch event by hash''], None)
             | Inr ev \<Rightarrow> ([ApiFetch (TxHash payload)], Some ev))
          else ([Log Warn ''no event data and no tx_hash''], None))"

text \<open>
  \<open>processTransaction\<close>. A panic here is in a goroutine of its own, with no
  recover.
\<close>

definition processTransaction ::
  "WebhookPayload \<Rightarrow> (error + Event) \<Rightarrow> Storage \<Rightarrow> panic + (effect list \<times> Storage)" where
  "processTransaction payload fetched s =
     (case GetWalletsByRaw s (AccountID payload) of
        (Inl err, s1) \<Rightarrow>
          Inr ([StorageLookup (AccountID payload), Log Error ''get wallets by raw''], s1)
      | (Inr ws, s1) \<Rightarrow>
          if length ws = 0 then
            (case slice_to (AccountID payload) 10 of
               Inl p \<Rightarrow> Inl p
             | Inr _ \<Rightarrow>
                 Inr ([StorageLookup (AccountID payload),
                       Log Debug ''no wallets found for account''], s1))
          else
            (case get_event payload fetched of
               (es, None) \<Rightarrow> Inr (StorageLookup (AccountID payload) # es, s1)
             | (es, Some event) \<Rightarrow>
                 if EventID event = [] then
                   Inr (StorageLookup (AccountID payload) # es @ [Log Warn ''no event_id in event''], s1)
                 else
                   (let (ds, s2) = mark_and_dispatch ws event s1
                    in Inr (StorageLookup (AccountID payload) # es @ Log Info ''processing event'' # ds, s2))))"

text \<open>One request end to end: the handler, then the goroutine it started.\<close>

definition serve ::
  "Request \<Rightarrow> (error + Event) \<Rightarrow> Storage \<Rightarrow> panic + (nat \<times> effect list \<times> Storage)" where
  "serve r fetched s =
     (case handleWebhook r of
        Inl p \<Rightarrow> Inl p
      | Inr (status, es, None) \<Rightarrow> Inr (status, es, s)
      | Inr (status, es, Some payload) \<Rightarrow>
          (case processTransaction payload fetched s of
             Inl p \<Rightarrow> Inl p
           | Inr (es', s') \<Rightarrow> Inr (status, es @ es', s')))"

text \<open>A run of deliveries, each with its payload and its upstream answer, through
  \<open>processTransaction\<close> on the evolving storage; the effects of all of them in order.
  A delivery that panics ends the run (the process is gone).\<close>

fun deliveries :: "(WebhookPayload \<times> (error + Event)) list \<Rightarrow> Storage \<Rightarrow> effect list \<times> Storage" where
  "deliveries [] s = ([], s)"
| "deliveries ((payload, fetched) # rest) s =
     (case processTransaction payload fetched s of
        Inl p \<Rightarrow> ([], s)
      | Inr (es, s1) \<Rightarrow> (let (es', s2) = deliveries rest s1 in (es @ es', s2)))"

text \<open>How often the handler was started for a wallet id and an event id, and how
  often for anything.\<close>

fun is_dispatch :: "effect \<Rightarrow> bool" where
  "is_dispatch (Dispatch w ev) = True"
| "is_dispatch _ = False"

fun is_dispatch_of :: "int \<Rightarrow> string \<Rightarrow> effect \<Rightarrow> bool" where
  "is_dispatch_of wid eid (Dispatch w ev) = (ID w = wid \<and> EventID ev = eid)"
| "is_dispatch_of wid eid _ = False"

definition dcount :: "int \<Rightarrow> string \<Rightarrow> effect list \<Rightarrow> nat" where
  "dcount wid eid es = length (filter (is_dispatch_of wid eid) es)"

fun touches_storage :: "effect \<Rightarrow> bool" where
  "touches_storage (StorageLookup a) = True"
| "touches_storage (LedgerInsert w e) = True"
| "touches_storage _ = False"

section \<open>Subscription manager (package webhook, Manager)\<close>

text \<open>A Go \<open>map[string]bool\<close> as an association list: a lookup of a missing key
  gives \<open>false\<close>, and \<open>range\<close> visits the keys in some order, here the list's.\<close>

definition map_get :: "(string \<times> bool) list \<Rightarrow> string \<Rightarrow> bool" where
  "map_get m k = (case map_of m k of Some b \<Rightarrow> b | None \<Rightarrow> False)"

definition map_keys :: "(string \<times> bool) list \<Rightarrow> string list" where
  "map_keys m = map fst m"

record Manager =
  endpoint :: string
  webhookID :: int
  subscribed :: "(string \<times> bool) list"

definition NewManager :: "string \<Rightarrow> Manager" where
  "NewManager ep = \<lparr>endpoint = ep, webhookID = 0, subscribed = []\<rparr>"

text \<open>The upstream calls of the manager and of the seeder.\<close>

datatype api_call =
    SubscribeAccounts int "string list"
  | UnsubscribeAccounts int "string list"
  | GetEvents string nat

definition needed_of :: "Wallet list \<Rightarrow> (string \<times> bool) list" where
  "needed_of ws = fold (\<lambda>w needed. AList.update (AddressRaw w) True needed) ws []"

definition toAdd_of :: "(string \<times> bool) list \<Rightarrow> (string \<times> bool) list \<Rightarrow> string list" where
  "toAdd_of needed sub = filter (\<lambda>addr. \<not> map_get sub addr) (map_keys needed)"

definition toRemove_of :: "(string \<times> bool) list \<Rightarrow> (string \<times> bool) list \<Rightarrow> string list" where
  "toRemove_of needed sub = filter (\<lambda>addr. \<not> map_get needed addr) (map_keys sub)"

text \<open>
  \<open>sync\<close>: one tick. \<open>subErr\<close> and \<open>unsubErr\<close> are what \<open>SubscribeAccounts\<close>
  and \<open>UnsubscribeAccounts\<close> return if they are called. The result is the returned
  error, the manager, the storage and the upstream calls made.
\<close>

definition sync ::
  "Manager \<Rightarrow> Storage \<Rightarrow> error option \<Rightarrow> error option \<Rightarrow>
     error option \<times> Manager \<times> Storage \<times> api_call list" where
  "sync m s subErr unsubErr =
     (if webhookID m = 0 then (None, m, s, [])
      else case GetAllWallets s of
        (Inl err, s1) \<Rightarrow> (Some err, m, s1, [])
      | (Inr ws, s1) \<Rightarrow>
          (let needed = needed_of ws;
               toAdd = toAdd_of needed (subscribed m);
               toRemove = toRemove_of needed (subscribed m);
               (m1, cs1) =
                 (if length toAdd > 0 then
                    (case subErr of
                       Some err \<Rightarrow> (m, [SubscribeAccounts (webhookID m) toAdd])
                     | None \<Rightarrow>
                         (m\<lparr>subscribed := fold (\<lambda>addr sub. AList.update addr True sub) toAdd (subscribed m)\<rparr>,
                          [SubscribeAccounts (webhookID m) toAdd]))
                  else (m, []));
               (m2, cs2) =
                 (if length toRemove > 0 then
                    (case unsubErr of
                       Some err \<Rightarrow> (m1, [UnsubscribeAccounts (webhookID m1) toRemove])
                     | None \<Rightarrow>
                         (m1\<lparr>subscribed := fold (\<lambda>addr sub. AList.delete addr sub) toRemove (subscribed m1)\<rparr>,
                          [UnsubscribeAccounts (webhookID m1) toRemove]))
                  else (m1, []))
           in (None, m2, s1, cs1 @ cs2)))"

text \<open>The set the cache stands for, and the cache's invariant: the code only ever
  stores \<open>true\<close>.\<close>

definition subscribed_set :: "Manager \<Rightarrow> string set" where
  "subscribed_set m = set (map_keys (subscribed m))"

definition cache_ok :: "Manager \<Rightarrow> bool" where
  "cache_ok m = list_all snd (subscribed m)"

section \<open>Backfill seeder (package main, seedAllWallets)\<close>

text \<open>The upstream answers of the seeder: call number, address and limit give the
  result of \<open>GetEvents\<close>.\<close>

type_synonym events_api = "nat \<Rightarrow> string \<Rightarrow> nat \<Rightarrow> error + Event list"

text \<open>The inner loop over one wallet's events; the error of
  \<open>MarkEventProcessed\<close> is dropped, \<open>isNew\<close> is then \<open>false\<close>.\<close>

fun seed_events :: "int \<Rightarrow> Event list \<Rightarrow> Storage \<Rightarrow> nat \<Rightarrow> effect list \<times> Storage \<times> nat" where
  "seed_events wid [] s totalSeeded = ([], s, totalSeeded)"
| "seed_events wid (ev # evs) s totalSeeded =
     (if EventID ev \<noteq> [] then
        (case MarkEventProcessed s wid (EventID ev) of
           (r, s1) \<Rightarrow>
             (let isNew = (case r of Inr b \<Rightarrow> b | Inl err \<Rightarrow> False);
                  (es, s2, n) = seed_events wid evs s1 (if isNew then totalSeeded + 1 else totalSeeded)
              in (LedgerInsert wid (EventID ev) # es, s2, n)))
      else seed_events wid evs s totalSeeded)"

text \<open>The outer loop over the wallets; the upstream calls are kept beside the
  effects.\<close>

fun seed_wallets ::
  "events_api \<Rightarrow> nat \<Rightarrow> Wallet list \<Rightarrow> Storage \<Rightarrow> nat \<Rightarrow>
     api_call list \<times> effect list \<times> Storage \<times> nat" where
  "seed_wallets api i [] s totalSeeded = ([], [], s, totalSeeded)"
| "seed_wallets api i (w # ws) s totalSeeded =
     (case api i (AddressRaw w) 5 of
        Inl err \<Rightarrow>
          (let (cs, es, s1, n) = seed_wallets api (Suc i) ws s totalSeeded
           in (GetEvents (AddressRaw w) 5 # cs, Log Warn ''fetch events for seeding'' # es, s1, n))
      | Inr events \<Rightarrow>
          (let (es1, s1, n1) = seed_events (ID w) events s totalSeeded;
               (cs, es2, s2, n2) = seed_wallets api (Suc i) ws s1 n1
           in (GetEvents (AddressRaw w) 5 # cs, es1 @ es2, s2, n2)))"

definition seedAllWallets :: "events_api \<Rightarrow> Storage \<Rightarrow> api_call list \<times> effect list \<times> Storage \<times> nat" where
  "seedAllWallets api s =
     (case GetAllWallets s of
        (Inl err, s1) \<Rightarrow> ([], [Log Error ''get all wallets for seeding''], s1, 0)
      | (Inr ws, s1) \<Rightarrow>
          if length ws = 0 then ([], [Log Info ''no wallets to seed''], s1, 0)
          else
            (let (cs, es, s2, n) = seed_wallets api 0 ws s1 0
             in (cs, Log Info ''seeding wallets'' # es @ [Log Info ''seeding complete''], s2, n)))"

text \<open>The ledger entries a seeding run is to add: for the \<open>i\<close>-th wallet whose
  fetch succeeded, its id with each non-empty event id.\<close>

fun seeded_entries :: "events_api \<Rightarrow> nat \<Rightarrow> Wallet list \<Rightarrow> (int \<times> string) list" where
  "seeded_entries api i [] = []"
| "seeded_entries api i (w # ws) =
     (case api i (AddressRaw w) 5 of
        Inl err \<Rightarrow> seeded_entries api (Suc i) ws
      | Inr events \<Rightarrow>
          map (\<lambda>ev. (ID w, EventID ev)) (filter (\<lambda>ev. EventID ev \<noteq> []) events)
            @ seeded_entries api (Suc i) ws)"

text \<open>The fetches of a seeding run that fail, and the warnings among its effects.\<close>

fun fetch_failures :: "events_api \<Rightarrow> nat \<Rightarrow> Wallet list \<Rightarrow> nat" where
  "fetch_failures api i [] = 0"
| "fetch_failures api i (w # ws) =
     (case api i (AddressRaw w) 5 of
        Inl err \<Rightarrow> Suc (fetch_failures api (Suc i) ws)
      | Inr events \<Rightarrow> fetch_failures api (Suc i) ws)"

definition fetch_warnings :: "effect list \<Rightarrow> nat" where
  "fetch_warnings es = length (filter (\<lambda>e. e = Log Warn ''fetch events for seeding'') es)"

section \<open>Rate-limited client (package tonapi, Client)\<close>

text \<open>
  Times are nanoseconds since the Unix epoch, durations are nanoseconds in an int64.
  \<open>time.Time{}\<close> is January 1 of year 1. \<open>t.Sub(u)\<close> saturates at the ends of the
  int64 range; the subtraction of two durations wraps.
\<close>

definition Millisecond :: int where "Millisecond = 1000000"
definition Second :: int where "Second = 1000000000"
definition maxDuration :: int where "maxDuration = 2 ^ 63 - 1"
definition minDuration :: int where "minDuration = - (2 ^ 63)"
definition zero_time :: int where "zero_time = - 62135596800 * Second"

definition time_sub :: "int \<Rightarrow> int \<Rightarrow> int" where
  "time_sub t u =
     (let d = t - u in
      if d > maxDuration then maxDuration else if d < minDuration then minDuration else d)"

definition dur_sub :: "int \<Rightarrow> int \<Rightarrow> int" where
  "dur_sub a b = (a - b + 2 ^ 63) mod 2 ^ 64 - 2 ^ 63"

text \<open>\<open>time.Sleep(d)\<close> pauses for at least \<open>d\<close>, and not at all when \<open>d \<le> 0\<close>.\<close>

definition sleep_for :: "int \<Rightarrow> int" where
  "sleep_for d = (if d \<le> 0 then 0 else d)"

record Client =
  baseURL :: string
  apiKey :: string
  httpTimeout :: int
  lastCall :: int
  minDelay :: int

definition TrimSuffix :: "string \<Rightarrow> string \<Rightarrow> string" where
  "TrimSuffix s suffix =
     (if length suffix \<le> length s \<and> drop (length s - length suffix) s = suffix
      then take (length s - length suffix) s else s)"

definition NewClient :: "string \<Rightarrow> string \<Rightarrow> Client" where
  "NewClient url key =
     \<lparr>baseURL = TrimSuffix url ''/'', apiKey = key, httpTimeout = 30 * Second,
      lastCall = zero_time, minDelay = 250 * Millisecond\<rparr>"

text \<open>
  \<open>throttle\<close>, run under the client's mutex: \<open>now\<close> is the clock when
  \<open>time.Since\<close> reads it, \<open>late\<close> is how much later than the earliest possible
  moment \<open>time.Now()\<close> is read at the end (sleep overshoot, scheduling).
\<close>

definition throttle :: "Client \<Rightarrow> int \<Rightarrow> nat \<Rightarrow> Client" where
  "throttle c now late =
     (let elapsed = time_sub now (lastCall c);
          woke = (if elapsed < minDelay c then now + sleep_for (dur_sub (minDelay c) elapsed) else now)
      in c\<lparr>lastCall := woke + int late\<rparr>)"

text \<open>What the HTTP exchange of a request comes to.\<close>

datatype http_outcome = DoFailed | ReadFailed | Responded nat string

text \<open>
  One call of \<open>doRequest\<close>: when it enters \<open>throttle\<close> (as the time since the
  stamp in \<open>lastCall\<close>, which under the mutex and a monotonic clock is not
  negative), the lateness of the stamp, how long the call takes after
  \<open>throttle\<close> has returned and released the mutex to marshal the body and build
  the request (until \<open>httpClient.Do\<close> is called, or until it gives up), whether the
  body marshals, whether \<open>http.NewRequestWithContext\<close> accepts the request, the
  HTTP exchange and how long it takes from \<open>httpClient.Do\<close> to the return.
\<close>

record call =
  gap :: nat
  late :: nat
  prep :: nat
  marshal_ok :: bool
  request_ok :: bool
  http :: http_outcome
  took :: nat

text \<open>
  \<open>doRequest\<close> gives its result, the client, the time the throttle releases the
  call (the stamp it leaves in \<open>lastCall\<close>), the time the request is sent (none
  when the call fails before \<open>httpClient.Do\<close>) and the time the call returns.
\<close>

definition doRequest :: "Client \<Rightarrow> call \<Rightarrow> (error + string) \<times> Client \<times> int \<times> int option \<times> int" where
  "doRequest c cl =
     (let c1 = throttle c (lastCall c + int (gap cl)) (late cl);
          ready = lastCall c1 + int (prep cl)
      in if \<not> marshal_ok cl then (Inl MarshalError, c1, lastCall c1, None, ready)
         else if \<not> request_ok cl then (Inl CreateRequestError, c1, lastCall c1, None, ready)
         else
           (case http cl of
              DoFailed \<Rightarrow> Inl TransportError
            | ReadFailed \<Rightarrow> Inl ReadBodyError
            | Responded code data \<Rightarrow> if code \<ge> 400 then Inl (ApiError code data) else Inr data,
            c1, lastCall c1, Some ready, ready + int (took cl)))"

text \<open>The parts of a result of \<open>doRequest\<close>.\<close>

definition client_after :: "(error + string) \<times> Client \<times> int \<times> int option \<times> int \<Rightarrow> Client" where
  "client_after r = fst (snd r)"

definition released_at :: "(error + string) \<times> Client \<times> int \<times> int option \<times> int \<Rightarrow> int" where
  "released_at r = fst (snd (snd r))"

definition sent_at :: "(error + string) \<times> Client \<times> int \<times> int option \<times> int \<Rightarrow> int option" where
  "sent_at r = fst (snd (snd (snd r)))"

definition returned_at :: "(error + string) \<times> Client \<times> int \<times> int option \<times> int \<Rightarrow> int" where
  "returned_at r = snd (snd (snd (snd r)))"

text \<open>A sequence of calls through one client, in the order in which the mutex lets
  them into the throttle (concurrent callers included): for each call the time it is
  released and the time its request is sent.\<close>

fun call_times :: "Client \<Rightarrow> call list \<Rightarrow> (int \<times> int option) list" where
  "call_times c [] = []"
| "call_times c (cl # cls) =
     (released_at (doRequest c cl), sent_at (doRequest c cl))
       # call_times (client_after (doRequest c cl)) cls"

text \<open>The stamps of the calls, and the times at which the requests that are sent
  start.\<close>

definition release_times :: "Client \<Rightarrow> call list \<Rightarrow> int list" where
  "release_times c cls = map fst (call_times c cls)"

definition send_times :: "Client \<Rightarrow> call list \<Rightarrow> int list" where
  "send_times c cls = List.map_filter snd (call_times c cls)"

fun sent_after_release :: "int \<times> int option \<Rightarrow> bool" where
  "sent_after_release (released, None) = True"
| "sent_after_release (released, Some sent) = (released \<le> sent)"

text \<open>Consecutive entries of a list of times are at least \<open>d\<close> apart.\<close>

fun spaced :: "int \<Rightarrow> int list \<Rightarrow> bool" where
  "spaced d (x # y # zs) = (d \<le> y - x \<and> spaced d (y # zs))"
| "spaced d _ = True"

section \<open>Example data\<close>

text \<open>Two subscribers tracking the same address, a third wallet on another one, an
  empty ledger, and an event delivered inline.\<close>

definition wallet1 :: Wallet where
  "wallet1 = \<lparr>ID = 1, UserID = 100, Name = ''main'', AddressRaw = ''0:aaaaaaaaaaaaaaaa'',
              AddressDisplay = ''UQaaaa'', MinAmountTON = None, CreatedAt = 0\<rparr>"

definition wallet2 :: Wallet where
  "wallet2 = \<lparr>ID = 2, UserID = 200, Name = ''watch'', AddressRaw = ''0:aaaaaaaaaaaaaaaa'',
              AddressDisplay = ''UQaaaa'', MinAmountTON = None, CreatedAt = 0\<rparr>"

definition wallet3 :: Wallet where
  "wallet3 = \<lparr>ID = 3, UserID = 100, Name = ''cold'', AddressRaw = ''0:bbbbbbbbbbbbbbbb'',
              AddressDisplay = ''UQbbbb'', MinAmountTON = None, CreatedAt = 0\<rparr>"

definition storage0 :: Storage where
  "storage0 = \<lparr>wallets = [wallet1, wallet2, wallet3], wallets_seq = 3, processed_events = [],
               changes = (\<lambda>c. 0), faults = [], conns = []\<rparr>"

definition event1 :: Event where
  "event1 = \<lparr>EventID = ''ev1'', Timestamp = 0, Actions = [], IsScam = False\<rparr>"

definition payload1 :: WebhookPayload where
  "payload1 = \<lparr>EventType = ''account_tx'', AccountID = ''0:aaaaaaaaaaaaaaaa'', TxHash = ''h1'',
               Lt = 0, InlineEvent = Some event1\<rparr>"

text \<open>
  The event for the address of wallet 3, and the storage under two pool schedules.
  In \<open>storage_busy\<close> the payload is delivered twice, one delivery after the
  other, while another goroutine uses the database: the first delivery gets
  connection 0 for its three statements, the second gets connection 0 for the lookup,
  connection 1 for the insert and connection 0 again for \<open>SELECT changes()\<close>.
  In \<open>storage_race\<close> two goroutines are inside \<open>MarkEventProcessed\<close> for
  the same pair at once: the inserts run on connections 0 and 1, then both
  \<open>SELECT changes()\<close> run on connection 0, the one handed back last.
\<close>

definition payload3 :: WebhookPayload where
  "payload3 = \<lparr>EventType = ''account_tx'', AccountID = ''0:bbbbbbbbbbbbbbbb'', TxHash = ''h1'',
               Lt = 0, InlineEvent = Some event1\<rparr>"

definition storage_busy :: Storage where
  "storage_busy = storage0\<lparr>conns := [0, 0, 0, 0, 1, 0]\<rparr>"

definition storage_race :: Storage where
  "storage_race = storage0\<lparr>conns := [0, 1, 0, 0]\<rparr>"

text \<open>The storage after the first delivery from \<open>storage_busy\<close>, and after the
  second.\<close>

definition storage_busy1 :: Storage where
  "storage_busy1 = storage0\<lparr>processed_events := [(3, ''ev1'')], changes := (\<lambda>c. 0)(0 := 1),
                            conns := [0, 1, 0]\<rparr>"

definition storage_busy2 :: Storage where
  "storage_busy2 = storage0\<lparr>processed_events := [(3, ''ev1'')],
                            changes := (\<lambda>c. 0)(0 := 1, 1 := 0), conns := []\<rparr>"

text \<open>A payload whose account id has five bytes.\<close>

definition payload_short :: WebhookPayload where
  "payload_short = \<lparr>EventType = [], AccountID = ''0:abc'', TxHash = [], Lt = 0, InlineEvent = None\<rparr>"

text \<open>A pending-transaction notice for a tracked address, and a payload without an
  account id.\<close>

definition payload_mempool :: WebhookPayload where
  "payload_mempool = \<lparr>EventType = ''mempool_msg'', AccountID = ''0:aaaaaaaaaaaaaaaa'',
                      TxHash = ''h2'', Lt = 0, InlineEvent = Some event1\<rparr>"

definition payload_no_account :: WebhookPayload where
  "payload_no_account = \<lparr>EventType = ''account_tx'', AccountID = [], TxHash = ''h3'', Lt = 0,
                         InlineEvent = Some event1\<rparr>"

definition post :: "WebhookPayload \<Rightarrow> Request" where
  "post p = \<lparr>Method = ''POST'', Body = Inr p\<rparr>"

text \<open>A manager whose cache holds one address that is no longer tracked and one
  that is.\<close>

definition manager0 :: Manager where
  "manager0 = \<lparr>endpoint = ''https://bot.example/webhook'', webhookID = 7,
               subscribed = [(''0:cccccccccccccccc'', True), (''0:aaaaaaaaaaaaaaaa'', True)]\<rparr>"

text \<open>The upstream calls a tick makes for a cache and the wallets in storage.\<close>

definition sync_calls :: "Manager \<Rightarrow> Wallet list \<Rightarrow> api_call list" where
  "sync_calls m ws =
     (let toAdd = toAdd_of (needed_of ws) (subscribed m);
          toRemove = toRemove_of (needed_of ws) (subscribed m)
      in (if toAdd \<noteq> [] then [SubscribeAccounts (webhookID m) toAdd] else []) @
         (if toRemove \<noteq> [] then [UnsubscribeAccounts (webhookID m) toRemove] else []))"

text \<open>Upstream answers for a seeding run: two events for the first call, one of
  them without an id, a failure for the second call, one event for the third.\<close>

definition old_event :: "string \<Rightarrow> Event" where
  "old_event eid = \<lparr>EventID = eid, Timestamp = 0, Actions = [], IsScam = False\<rparr>"

definition api0 :: events_api where
  "api0 i addr limit =
     (if i = 0 then Inr [old_event ''old1'', old_event []]
      else if i = 1 then Inl TransportError
      else Inr [old_event ''old2''])"

text \<open>The storage with both subscribers' entries for the event, after wallet 1 is
  removed, and after its address is registered again.\<close>

definition storage1 :: Storage where
  "storage1 = storage0\<lparr>processed_events := [(1, ''ev1''), (2, ''ev1'')]\<rparr>"

definition storage2 :: Storage where
  "storage2 = storage1\<lparr>wallets := [wallet2, wallet3], processed_events := [(2, ''ev1'')],
                       changes := (changes storage1)(0 := 1)\<rparr>"

definition wallet4 :: Wallet where
  "wallet4 = \<lparr>ID = 4, UserID = 100, Name = ''main'', AddressRaw = ''0:aaaaaaaaaaaaaaaa'',
              AddressDisplay = ''UQaaaa'', MinAmountTON = None, CreatedAt = 0\<rparr>"

definition storage3 :: Storage where
  "storage3 = storage2\<lparr>wallets := [wallet2, wallet3, wallet4], wallets_seq := 4\<rparr>"

text \<open>A client and three calls: the first takes 300ms, the second enters the
  throttle the moment the first returns and gets an error status, the third enters
  20ms after the second was issued. The clients after each call.\<close>

definition client0 :: Client where
  "client0 = NewClient ''https://tonapi.io/v2/'' ''key''"

definition call_a :: call where
  "call_a = \<lparr>gap = 63835596800000000000, late = 0, prep = 0, marshal_ok = True, request_ok = True,
             http = Responded 200 ''{}'', took = 300000000\<rparr>"

definition call_b :: call where
  "call_b = \<lparr>gap = 300000000, late = 0, prep = 0, marshal_ok = True, request_ok = True,
             http = Responded 500 ''busy'', took = 20000000\<rparr>"

definition call_c :: call where
  "call_c = \<lparr>gap = 20000000, late = 1000, prep = 0, marshal_ok = True, request_ok = True,
             http = Responded 200 ''{}'', took = 20000000\<rparr>"

text \<open>Two calls of one caller: the first takes 200ms after its stamp to build its
  request and returns 10ms after sending it; the second enters the throttle at that
  moment.\<close>

definition call_d :: call where
  "call_d = \<lparr>gap = 63835596800000000000, late = 0, prep = 200000000, marshal_ok = True,
             request_ok = True, http = Responded 200 ''{}'', took = 10000000\<rparr>"

definition call_e :: call where
  "call_e = \<lparr>gap = 210000000, late = 0, prep = 0, marshal_ok = True,
             request_ok = True, http = Responded 200 ''{}'', took = 10000000\<rparr>"

definition client1 :: Client where
  "client1 = client0\<lparr>lastCall := 1700000000000000000\<rparr>"

definition client2 :: Client where
  "client2 = client0\<lparr>lastCall := 1700000000300000000\<rparr>"

definition client3 :: Client where
  "client3 = client0\<lparr>lastCall := 1700000000550001000\<rparr>"

definition client4 :: Client where
  "client4 = client0\<lparr>lastCall := 1700000000250000000\<rparr>"

section \<open>Storage: the ledger only grows\<close>

lemma next_fault_keeps:
  "next_fault s = (f, s1) \<Longrightarrow>
     processed_events s1 = processed_events s \<and> wallets s1 = wallets s \<and>
     changes s1 = changes s \<and> wallets_seq s1 = wallets_seq s \<and> conns s1 = conns s"
  by (auto simp: next_fault_def split: list.splits)

lemma next_conn_keeps:
  "next_conn s = (c, s1) \<Longrightarrow>
     processed_events s1 = processed_events s \<and> wallets s1 = wallets s \<and>
     changes s1 = changes s \<and> wallets_seq s1 = wallets_seq s \<and> faults s1 = faults s"
  by (auto simp: next_conn_def split: list.splits)

lemma next_conn_one: "conns s = [] \<Longrightarrow> next_conn s = (0, s)"
  by (simp add: next_conn_def)

lemma next_fault_none: "faults s = [] \<Longrightarrow> next_fault s = (False, s)"
  by (simp add: next_fault_def)

lemma mark_insert_ledger:
  "mark_insert s w e = (r, s1) \<Longrightarrow>
     wallets s1 = wallets s \<and> wallets_seq s1 = wallets_seq s \<and>
     (r = None \<longrightarrow> set (processed_events s1) = insert (w, e) (set (processed_events s))) \<and>
     (r \<noteq> None \<longrightarrow> processed_events s1 = processed_events s)"
  by (auto simp: mark_insert_def insert_or_ignore_def
           split: prod.splits bool.splits if_splits dest!: next_fault_keeps next_conn_keeps)

lemma mark_changes_ledger:
  "mark_changes s = (r, s1) \<Longrightarrow>
     wallets s1 = wallets s \<and> wallets_seq s1 = wallets_seq s \<and>
     processed_events s1 = processed_events s"
  by (auto simp: mark_changes_def
           split: prod.splits bool.splits if_splits dest!: next_fault_keeps next_conn_keeps)

lemma mark_tables:
  assumes "MarkEventProcessed s w e = (r, s1)"
  shows "wallets s1 = wallets s \<and> wallets_seq s1 = wallets_seq s \<and>
         set (processed_events s) \<subseteq> set (processed_events s1) \<and>
         set (processed_events s1) \<subseteq> insert (w, e) (set (processed_events s))"
proof -
  obtain ri si where i: "mark_insert s w e = (ri, si)" by (cases "mark_insert s w e")
  note I = mark_insert_ledger[OF i]
  show ?thesis
  proof (cases ri)
    case None
    then have "mark_changes si = (r, s1)" using assms i by (simp add: MarkEventProcessed_def)
    from mark_changes_ledger[OF this] I None show ?thesis by auto
  next
    case (Some err)
    then have "s1 = si" using assms i by (simp add: MarkEventProcessed_def)
    then show ?thesis using I Some by auto
  qed
qed

lemma mark_grows:
  "MarkEventProcessed s w e = (r, s1) \<Longrightarrow> set (processed_events s) \<subseteq> set (processed_events s1)"
  using mark_tables by blast

text \<open>When the storage does not fail, the pair is in the ledger afterwards, whatever
  connections the pool hands out.\<close>

lemma mark_no_fault:
  "faults s = [] \<Longrightarrow> \<exists>b s1. MarkEventProcessed s w e = (Inr b, s1) \<and> faults s1 = [] \<and>
     wallets s1 = wallets s \<and>
     set (processed_events s1) = insert (w, e) (set (processed_events s))"
  by (auto simp add: MarkEventProcessed_def mark_insert_def mark_changes_def insert_or_ignore_def
        next_fault_def next_conn_def split: list.splits)

text \<open>On one connection \<open>SELECT changes()\<close> reads what the insert before it left:
  the result is \<open>true\<close> only for a pair that was not in the ledger.\<close>

lemma mark_new_one_conn:
  "conns s = [] \<Longrightarrow> MarkEventProcessed s w e = (r, s1) \<Longrightarrow>
     conns s1 = [] \<and>
     (r = Inr True \<longrightarrow> (w, e) \<notin> set (processed_events s) \<and> (w, e) \<in> set (processed_events s1))"
  by (auto simp: MarkEventProcessed_def mark_insert_def mark_changes_def insert_or_ignore_def
        next_conn_def next_fault_def split: list.splits if_splits bool.splits)

text \<open>A call that runs its two pool calls with no other call in between is
  \<open>MarkEventProcessed\<close>.\<close>

lemma interleave_alone:
  "interleave [0, 0] [Pending w e] s =
     ([Finished (fst (MarkEventProcessed s w e))], snd (MarkEventProcessed s w e))"
  by (auto simp: MarkEventProcessed_def split: prod.splits option.splits)

lemma gwr_keeps:
  "GetWalletsByRaw s a = (r, s1) \<Longrightarrow>
     processed_events s1 = processed_events s \<and> wallets s1 = wallets s \<and>
     wallets_seq s1 = wallets_seq s \<and> (conns s = [] \<longrightarrow> conns s1 = []) \<and>
     (\<forall>ws. r = Inr ws \<longrightarrow> ws = filter (\<lambda>w. AddressRaw w = a) (wallets s))"
  by (auto simp: GetWalletsByRaw_def next_conn_def
           split: prod.splits bool.splits list.splits dest!: next_fault_keeps)

lemma gwr_ledger: "GetWalletsByRaw s a = (r, s1) \<Longrightarrow> processed_events s1 = processed_events s"
  using gwr_keeps by blast

section \<open>Receiver: dispatch per wallet and event\<close>

lemma dcount_append: "dcount wid eid (xs @ ys) = dcount wid eid xs + dcount wid eid ys"
  by (simp add: dcount_def)

text \<open>The invariant of the loop on one connection, for a fixed pair: the ledger
  grows; a pair already in the ledger is not dispatched; a pair is dispatched at most
  once; a dispatched pair is in the ledger afterwards.\<close>

lemma mad_inv:
  "conns s = [] \<Longrightarrow> mark_and_dispatch ws ev s = (es, s') \<Longrightarrow>
     conns s' = [] \<and>
     set (processed_events s) \<subseteq> set (processed_events s') \<and>
     ((wid, eid) \<in> set (processed_events s) \<longrightarrow> dcount wid eid es = 0) \<and>
     dcount wid eid es \<le> 1 \<and>
     (dcount wid eid es = 1 \<longrightarrow> (wid, eid) \<in> set (processed_events s'))"
proof (induction ws arbitrary: s es s')
  case Nil
  then show ?case by (simp add: dcount_def)
next
  case (Cons w ws)
  obtain r s1 where m: "MarkEventProcessed s (ID w) (EventID ev) = (r, s1)"
    by (cases "MarkEventProcessed s (ID w) (EventID ev)")
  obtain es2 s2 where r: "mark_and_dispatch ws ev s1 = (es2, s2)"
    by (cases "mark_and_dispatch ws ev s1")
  note one = mark_new_one_conn[OF Cons.prems(1) m]
  note ih = Cons.IH[OF conjunct1[OF one] r]
  note g = mark_grows[OF m]
  have s2: "s' = s2" using Cons.prems(2) m r by (auto split: sum.splits if_splits)
  show ?case
  proof (cases "r = Inr True")
    case True
    then have es: "es = LedgerInsert (ID w) (EventID ev) # Dispatch w ev # es2"
      using Cons.prems(2) m r by auto
    from True one have n: "(ID w, EventID ev) \<notin> set (processed_events s)"
      "(ID w, EventID ev) \<in> set (processed_events s1)"
      by blast+
    show ?thesis using ih g n unfolding es s2 dcount_def by auto
  next
    case False
    then have "dcount wid eid es = dcount wid eid es2" using Cons.prems(2) m r
      by (cases r) (auto simp: dcount_def split: if_splits)
    then show ?thesis using ih g unfolding s2 by auto
  qed
qed

lemma get_event_no_dispatch:
  "get_event p f = (es, r) \<Longrightarrow> dcount wid eid es = 0 \<and> filter is_dispatch es = []"
  by (auto simp: get_event_def dcount_def split: option.splits if_splits sum.splits)

lemma pt_inv:
  assumes one: "conns s = []" and run: "processTransaction p f s = Inr (es, s')"
  shows "conns s' = [] \<and>
     set (processed_events s) \<subseteq> set (processed_events s') \<and>
     ((wid, eid) \<in> set (processed_events s) \<longrightarrow> dcount wid eid es = 0) \<and>
     dcount wid eid es \<le> 1 \<and>
     (dcount wid eid es = 1 \<longrightarrow> (wid, eid) \<in> set (processed_events s'))"
proof -
  obtain r s1 where g: "GetWalletsByRaw s (AccountID p) = (r, s1)"
    by (cases "GetWalletsByRaw s (AccountID p)")
  have l: "processed_events s1 = processed_events s" and c1: "conns s1 = []"
    using gwr_keeps[OF g] one by auto
  show ?thesis
  proof (cases r)
    case (Inl e)
    then show ?thesis using run g l c1 by (auto simp: processTransaction_def dcount_def)
  next
    case (Inr ws)
    obtain ges ge where ge: "get_event p f = (ges, ge)" by (cases "get_event p f")
    note gn = get_event_no_dispatch[OF ge, of wid eid]
    show ?thesis
    proof (cases "length ws = 0 \<or> ge = None \<or> EventID (the ge) = []")
      case True
      then have "s' = s1 \<and> dcount wid eid es = 0" using run g Inr ge gn
        by (auto simp: processTransaction_def dcount_def split: sum.splits if_splits option.splits)
      then show ?thesis using l c1 by simp
    next
      case False
      then obtain ev where ev: "ge = Some ev" "EventID ev \<noteq> []" "length ws \<noteq> 0" by auto
      obtain ds s2 where m: "mark_and_dispatch ws ev s1 = (ds, s2)"
        by (cases "mark_and_dispatch ws ev s1")
      have "s' = s2 \<and> dcount wid eid es = dcount wid eid ds" using run g Inr ge gn ev m
        by (auto simp: processTransaction_def dcount_def)
      then show ?thesis using mad_inv[OF c1 m, of wid eid] l by simp
    qed
  qed
qed

lemma deliveries_inv:
  "conns s = [] \<Longrightarrow> deliveries ds s = (es, s') \<Longrightarrow>
     conns s' = [] \<and>
     set (processed_events s) \<subseteq> set (processed_events s') \<and>
     ((wid, eid) \<in> set (processed_events s) \<longrightarrow> dcount wid eid es = 0) \<and>
     dcount wid eid es \<le> 1 \<and>
     (dcount wid eid es = 1 \<longrightarrow> (wid, eid) \<in> set (processed_events s'))"
proof (induction ds arbitrary: s es s')
  case Nil
  then show ?case by (simp add: dcount_def)
next
  case (Cons d ds)
  obtain p f where d: "d = (p, f)" by (cases d)
  show ?case
  proof (cases "processTransaction p f s")
    case (Inl pn)
    then show ?thesis using Cons.prems d by (auto simp: dcount_def)
  next
    case (Inr r)
    obtain es1 s1 where r: "r = (es1, s1)" by (cases r)
    obtain es2 s2 where rest: "deliveries ds s1 = (es2, s2)" by (cases "deliveries ds s1")
    have e: "es = es1 @ es2" "s' = s2" using Cons.prems(2) d Inr r rest by auto
    note a = pt_inv[OF Cons.prems(1) Inr[unfolded r], of wid eid]
    note b = Cons.IH[OF conjunct1[OF a] rest]
    show ?thesis using a b unfolding e dcount_append by auto
  qed
qed

text \<open>When every statement runs on one connection (no other goroutine is using the
  database), a run of deliveries starts the handler at most once for a wallet id and
  an event id, whatever the payloads, the upstream answers and the storage faults.\<close>

lemma one_connection_at_most_once:
  "conns s = [] \<Longrightarrow> length (filter (is_dispatch_of wid eid) (fst (deliveries ds s))) \<le> 1"
  using deliveries_inv[of s ds "fst (deliveries ds s)" "snd (deliveries ds s)" wid eid]
  by (simp add: dcount_def)

lemmas run_defs = processTransaction_def GetWalletsByRaw_def next_fault_def next_conn_def
  get_event_def MarkEventProcessed_def mark_insert_def mark_changes_def insert_or_ignore_def
  Let_def slice_to_def
  storage0_def wallet1_def wallet2_def wallet3_def event1_def payload1_def payload_short_def
  payload_mempool_def payload_no_account_def post_def

lemma busy_first:
  "processTransaction payload3 (Inl TransportError) storage_busy =
     Inr ([StorageLookup ''0:bbbbbbbbbbbbbbbb'', Log Info ''processing event'',
           LedgerInsert 3 ''ev1'', Dispatch wallet3 event1], storage_busy1)"
  by (simp add: run_defs payload3_def storage_busy_def storage_busy1_def)

lemma busy_second:
  "processTransaction payload3 (Inl TransportError) storage_busy1 =
     Inr ([StorageLookup ''0:bbbbbbbbbbbbbbbb'', Log Info ''processing event'',
           LedgerInsert 3 ''ev1'', Dispatch wallet3 event1], storage_busy2)"
  by (simp add: run_defs payload3_def storage_busy1_def storage_busy2_def)

text \<open>
  C1. The handler is started twice for one wallet id and one event id. Delivered
  twice in a row while another goroutine uses the database, the second delivery's
  insert is ignored on connection 1 and its \<open>SELECT changes()\<close> reads, on
  connection 0, the 1 left by the first delivery's insert: it reports the pair new
  and dispatches again. And two calls of \<open>MarkEventProcessed\<close> for the pair that
  run at once both report it new.
\<close>

theorem replayed_event_dispatched_twice:
  "filter (is_dispatch_of 3 ''ev1'')
     (fst (deliveries [(payload3, Inl TransportError), (payload3, Inl TransportError)] storage_busy)) =
     [Dispatch wallet3 event1, Dispatch wallet3 event1] \<and>
   fst (interleave [0, 1, 0, 1] [Pending 3 ''ev1'', Pending 3 ''ev1''] storage_race) =
     [Finished (Inr True), Finished (Inr True)]"
proof
  show "filter (is_dispatch_of 3 ''ev1'')
     (fst (deliveries [(payload3, Inl TransportError), (payload3, Inl TransportError)] storage_busy)) =
     [Dispatch wallet3 event1, Dispatch wallet3 event1]"
    by (simp add: busy_first busy_second wallet3_def event1_def)
  show "fst (interleave [0, 1, 0, 1] [Pending 3 ''ev1'', Pending 3 ''ev1''] storage_race) =
     [Finished (Inr True), Finished (Inr True)]"
    by (simp add: mark_insert_def mark_changes_def insert_or_ignore_def next_fault_def next_conn_def
          storage_race_def storage0_def)
qed

section \<open>Receiver: the status of a request\<close>

lemma handleWebhook_not_post:
  "Method r \<noteq> ''POST'' \<Longrightarrow> handleWebhook r = Inr (StatusMethodNotAllowed, [], None)"
  by (simp add: handleWebhook_def)

lemma handleWebhook_undecodable:
  "Method r = ''POST'' \<Longrightarrow> Body r = Inl u \<Longrightarrow>
     handleWebhook r = Inr (StatusBadRequest, [Log Warn ''invalid webhook payload''], None)"
  by (simp add: handleWebhook_def)

lemma handleWebhook_ok:
  "Method r = ''POST'' \<Longrightarrow> Body r = Inr p \<Longrightarrow>
   EventType p = ''mempool_msg'' \<or> EventType p = ''new_contract'' \<or> AccountID p = [] \<or>
     10 \<le> length (AccountID p) \<Longrightarrow>
     \<exists>es sp. handleWebhook r = Inr (StatusOK, es, sp)"
  by (auto simp add: handleWebhook_def slice_to_def)

text \<open>The handler panics on exactly the decodable POST payloads that pass both
  filters with an account id of one to nine bytes.\<close>

lemma handleWebhook_panics_iff:
  "(\<exists>pn. handleWebhook r = Inl pn) \<longleftrightarrow>
     (Method r = ''POST'' \<and>
      (\<exists>p. Body r = Inr p \<and> EventType p \<noteq> ''mempool_msg'' \<and> EventType p \<noteq> ''new_contract'' \<and>
           AccountID p \<noteq> [] \<and> length (AccountID p) < 10))"
  by (auto simp add: handleWebhook_def slice_to_def split: sum.splits)

text \<open>
  C2. A non-POST request gets 405 and an undecodable body gets 400 (the two lemmas
  above), but not every decodable POST body gets 200: for the account id \<open>0:abc\<close>
  the handler panics in \<open>payload.AccountID[:10]\<close> and writes no status.
\<close>

theorem handleWebhook_short_account_no_status:
  "handleWebhook (post payload_short) = Inl (SliceBoundsOutOfRange 10 5)"
  by (simp add: handleWebhook_def run_defs)

text \<open>
  C3. Neither routine is total: on the same payload the request as a whole ends in
  the handler's panic, and \<open>processTransaction\<close>, run on it with no wallet
  matching, panics in its own \<open>payload.AccountID[:10]\<close>.
\<close>

theorem short_account_panics:
  "serve (post payload_short) (Inl TransportError) storage0 = Inl (SliceBoundsOutOfRange 10 5) \<and>
   processTransaction payload_short (Inl TransportError) storage0 = Inl (SliceBoundsOutOfRange 10 5)"
  by (simp add: serve_def handleWebhook_def run_defs)

text \<open>
  C8. A request whose payload has event type \<open>mempool_msg\<close> or \<open>new_contract\<close>,
  or an empty account id, starts no processing: the handler hands no payload on, the
  storage is as it was (no statement was run against it), and nothing the request
  did is a storage lookup, a ledger insert or a dispatch. A POST of it is answered 200.
\<close>

theorem filtered_payload_touches_nothing:
  "Body r = Inr p \<and>
   (EventType p = ''mempool_msg'' \<or> EventType p = ''new_contract'' \<or> AccountID p = []) \<longrightarrow>
     (\<exists>st es. handleWebhook r = Inr (st, es, None) \<and> serve r fetched s = Inr (st, es, s) \<and>
        (Method r = ''POST'' \<longrightarrow> st = StatusOK) \<and>
        filter touches_storage es = [] \<and> filter is_dispatch es = [])"
  by (auto simp add: serve_def handleWebhook_def)

theorem filtered_payload_touches_nothing_witness:
  "Body (post payload_mempool) = Inr payload_mempool \<and>
   EventType payload_mempool = ''mempool_msg'' \<and>
   (\<exists>es. serve (post payload_mempool) (Inr event1) storage0 = Inr (StatusOK, es, storage0) \<and>
      filter touches_storage es = [] \<and> filter is_dispatch es = []) \<and>
   Body (post payload_no_account) = Inr payload_no_account \<and>
   AccountID payload_no_account = [] \<and>
   (\<exists>es. serve (post payload_no_account) (Inr event1) storage0 = Inr (StatusOK, es, storage0) \<and>
      filter touches_storage es = [] \<and> filter is_dispatch es = [])"
proof -
  have a: "Body (post payload_mempool) = Inr payload_mempool"
    "EventType payload_mempool = ''mempool_msg''" "Method (post payload_mempool) = ''POST''"
    by (simp_all add: post_def payload_mempool_def)
  have b: "Body (post payload_no_account) = Inr payload_no_account"
    "AccountID payload_no_account = []" "Method (post payload_no_account) = ''POST''"
    by (simp_all add: post_def payload_no_account_def)
  from filtered_payload_touches_nothing[of "post payload_mempool" payload_mempool "Inr event1" storage0]
    filtered_payload_touches_nothing[of "post payload_no_account" payload_no_account "Inr event1" storage0]
    a b
  show ?thesis by auto
qed

section \<open>Subscription manager: one tick\<close>

lemma map_of_fold_update:
  "map_of (fold (\<lambda>a sub. AList.update a True sub) xs al) k =
     (if k \<in> set xs then Some True else map_of al k)"
  by (induction xs arbitrary: al) (auto simp: update_conv')

lemma keys_fold_update:
  "fst ` set (fold (\<lambda>a sub. AList.update a True sub) xs al) = set xs \<union> fst ` set al"
  by (induction xs arbitrary: al) (auto simp: dom_update)

lemma map_of_fold_delete:
  "map_of (fold (\<lambda>a sub. AList.delete a sub) xs al) k =
     (if k \<in> set xs then None else map_of al k)"
  by (induction xs arbitrary: al) (auto simp: delete_conv')

lemma keys_fold_delete:
  "fst ` set (fold (\<lambda>a sub. AList.delete a sub) xs al) = fst ` set al - set xs"
  by (induction xs arbitrary: al) (auto simp: delete_keys image_iff simp flip: set_map)

lemma values_fold_update:
  "list_all snd al \<Longrightarrow> list_all snd (fold (\<lambda>a sub. AList.update a True sub) xs al)"
proof (induction xs arbitrary: al)
  case Nil then show ?case by simp
next
  case (Cons x xs)
  have "list_all snd (AList.update x True al)" using Cons.prems
    by (induction al) (auto)
  then show ?case using Cons.IH by simp
qed

lemma values_fold_delete:
  "list_all snd al \<Longrightarrow> list_all snd (fold (\<lambda>a sub. AList.delete a sub) xs al)"
proof (induction xs arbitrary: al)
  case Nil then show ?case by simp
next
  case (Cons x xs)
  have "list_all snd (AList.delete x al)" using Cons.prems
    by (auto simp: AList.delete_eq list_all_iff)
  then show ?case using Cons.IH by simp
qed

lemma needed_fold_keys:
  "fst ` set (fold (\<lambda>w needed. AList.update (AddressRaw w) True needed) ws al) = AddressRaw ` set ws \<union> fst ` set al"
  by (induction ws arbitrary: al) (auto simp: dom_update)

lemma needed_fold_map_of:
  "map_of (fold (\<lambda>w needed. AList.update (AddressRaw w) True needed) ws al) k =
     (if k \<in> AddressRaw ` set ws then Some True else map_of al k)"
  by (induction ws arbitrary: al) (auto simp: update_conv')

lemma needed_keys: "set (map_keys (needed_of ws)) = AddressRaw ` set ws"
  by (simp add: needed_of_def map_keys_def needed_fold_keys)

lemma needed_get: "map_get (needed_of ws) a \<longleftrightarrow> a \<in> AddressRaw ` set ws"
  by (simp add: needed_of_def map_get_def needed_fold_map_of)

lemma cache_ok_get: "cache_ok m \<Longrightarrow> map_get (subscribed m) a \<longleftrightarrow> a \<in> subscribed_set m"
proof -
  assume ok: "cache_ok m"
  show ?thesis
  proof (cases "map_of (subscribed m) a")
    case None
    then have "a \<notin> fst ` set (subscribed m)" by (simp add: map_of_eq_None_iff)
    then show ?thesis using None by (simp add: map_get_def subscribed_set_def map_keys_def)
  next
    case (Some b)
    then have "(a, b) \<in> set (subscribed m)" by (rule map_of_SomeD)
    then have "b" "a \<in> fst ` set (subscribed m)" using ok by (force simp: cache_ok_def list_all_iff)+
    then show ?thesis using Some by (simp add: map_get_def subscribed_set_def map_keys_def)
  qed
qed

lemma toAdd_set: "set (toAdd_of (needed_of ws) sub) = {a \<in> AddressRaw ` set ws. \<not> map_get sub a}"
  using needed_keys[of ws] by (auto simp: toAdd_of_def)

lemma toRemove_set: "set (toRemove_of (needed_of ws) sub) = {a \<in> fst ` set sub. a \<notin> AddressRaw ` set ws}"
  by (auto simp: toRemove_of_def needed_get map_keys_def)

lemma sync_run:
  assumes "webhookID m \<noteq> 0" "GetAllWallets s = (Inr ws, s1)"
  shows "sync m s subErr unsubErr =
    (let toAdd = toAdd_of (needed_of ws) (subscribed m);
         toRemove = toRemove_of (needed_of ws) (subscribed m);
         sub1 = (if toAdd \<noteq> [] \<and> subErr = None
                 then fold (\<lambda>addr sub. AList.update addr True sub) toAdd (subscribed m)
                 else subscribed m);
         sub2 = (if toRemove \<noteq> [] \<and> unsubErr = None
                 then fold (\<lambda>addr sub. AList.delete addr sub) toRemove sub1
                 else sub1)
     in (None, m\<lparr>subscribed := sub2\<rparr>, s1,
         (if toAdd \<noteq> [] then [SubscribeAccounts (webhookID m) toAdd] else []) @
         (if toRemove \<noteq> [] then [UnsubscribeAccounts (webhookID m) toRemove] else [])))"
  using assms by (auto simp: sync_def Let_def split: option.splits)

lemma sync_success:
  assumes ok: "cache_ok m" and wid: "webhookID m \<noteq> 0" and g: "GetAllWallets s = (Inr ws, s1)"
  shows "\<exists>m'. sync m s None None = (None, m', s1, sync_calls m ws) \<and>
           subscribed_set m' = AddressRaw ` set ws \<and> cache_ok m'"
proof -
  define toAdd where "toAdd = toAdd_of (needed_of ws) (subscribed m)"
  define toRemove where "toRemove = toRemove_of (needed_of ws) (subscribed m)"
  define sub1 where "sub1 = fold (\<lambda>addr sub. AList.update addr True sub) toAdd (subscribed m)"
  define sub2 where "sub2 = fold (\<lambda>addr sub. AList.delete addr sub) toRemove sub1"
  have run: "sync m s None None = (None, m\<lparr>subscribed := sub2\<rparr>, s1, sync_calls m ws)"
    unfolding sync_run[OF wid g] sync_calls_def sub2_def sub1_def toAdd_def toRemove_def
    by (auto simp: Let_def)
  have A: "set toAdd = {a \<in> AddressRaw ` set ws. \<not> map_get (subscribed m) a}"
    unfolding toAdd_def by (rule toAdd_set)
  have R: "set toRemove = {a \<in> fst ` set (subscribed m). a \<notin> AddressRaw ` set ws}"
    unfolding toRemove_def by (rule toRemove_set)
  have G: "\<And>a. map_get (subscribed m) a \<longleftrightarrow> a \<in> fst ` set (subscribed m)"
    using cache_ok_get[OF ok] by (simp add: subscribed_set_def map_keys_def)
  have "fst ` set sub2 = (set toAdd \<union> fst ` set (subscribed m)) - set toRemove"
    unfolding sub2_def sub1_def by (simp add: keys_fold_delete keys_fold_update)
  also have "\<dots> = AddressRaw ` set ws" unfolding A R using G by auto
  finally have keys: "fst ` set sub2 = AddressRaw ` set ws" .
  have vals: "list_all snd sub2" unfolding sub2_def sub1_def
    using ok by (simp add: cache_ok_def values_fold_delete values_fold_update)
  show ?thesis using run keys vals by (simp add: subscribed_set_def map_keys_def cache_ok_def)
qed

text \<open>
  C5. On a tick that gets to the comparison (a webhook id is set, the wallets load),
  with the cache holding only \<open>true\<close> entries: \<open>toAdd\<close> is the needed addresses
  minus the subscribed ones and \<open>toRemove\<close> the subscribed minus the needed, these
  are the lists sent upstream, an empty cache (the first tick) gives everything
  needed to add and nothing to remove, and when neither bulk call fails the cache
  afterwards is exactly the set of raw addresses of the wallets in storage.
\<close>

theorem sync_tick_reconciles:
  "cache_ok m \<and> webhookID m \<noteq> 0 \<and> GetAllWallets s = (Inr ws, s1) \<longrightarrow>
     set (toAdd_of (needed_of ws) (subscribed m)) = AddressRaw ` set ws - subscribed_set m \<and>
     set (toRemove_of (needed_of ws) (subscribed m)) = subscribed_set m - AddressRaw ` set ws \<and>
     (subscribed m = [] \<longrightarrow>
        set (toAdd_of (needed_of ws) (subscribed m)) = AddressRaw ` set ws \<and>
        toRemove_of (needed_of ws) (subscribed m) = []) \<and>
     snd (snd (snd (sync m s subErr unsubErr))) = sync_calls m ws \<and>
     (\<exists>m'. sync m s None None = (None, m', s1, sync_calls m ws) \<and>
        subscribed_set m' = AddressRaw ` set ws \<and> cache_ok m')"
proof (intro impI, elim conjE)
  assume ok: "cache_ok m" and wid: "webhookID m \<noteq> 0" and g: "GetAllWallets s = (Inr ws, s1)"
  have a: "set (toAdd_of (needed_of ws) (subscribed m)) = AddressRaw ` set ws - subscribed_set m"
    using cache_ok_get[OF ok] by (auto simp: toAdd_set)
  have r: "set (toRemove_of (needed_of ws) (subscribed m)) = subscribed_set m - AddressRaw ` set ws"
    by (auto simp: toRemove_set subscribed_set_def map_keys_def)
  have f: "subscribed m = [] \<longrightarrow>
        set (toAdd_of (needed_of ws) (subscribed m)) = AddressRaw ` set ws \<and>
        toRemove_of (needed_of ws) (subscribed m) = []"
    by (auto simp: toAdd_set toRemove_of_def map_keys_def map_get_def)
  have c: "snd (snd (snd (sync m s subErr unsubErr))) = sync_calls m ws"
    unfolding sync_run[OF wid g] sync_calls_def by (simp add: Let_def)
  show "set (toAdd_of (needed_of ws) (subscribed m)) = AddressRaw ` set ws - subscribed_set m \<and>
     set (toRemove_of (needed_of ws) (subscribed m)) = subscribed_set m - AddressRaw ` set ws \<and>
     (subscribed m = [] \<longrightarrow>
        set (toAdd_of (needed_of ws) (subscribed m)) = AddressRaw ` set ws \<and>
        toRemove_of (needed_of ws) (subscribed m) = []) \<and>
     snd (snd (snd (sync m s subErr unsubErr))) = sync_calls m ws \<and>
     (\<exists>m'. sync m s None None = (None, m', s1, sync_calls m ws) \<and>
        subscribed_set m' = AddressRaw ` set ws \<and> cache_ok m')"
    using a r f c sync_success[OF ok wid g] by blast
qed

lemmas sync_defs = manager0_def storage0_def wallet1_def wallet2_def wallet3_def
  GetAllWallets_def next_fault_def next_conn_def needed_of_def toAdd_of_def toRemove_of_def map_keys_def map_get_def
  cache_ok_def subscribed_set_def sync_calls_def

theorem sync_tick_reconciles_witness:
  "cache_ok manager0 \<and> webhookID manager0 \<noteq> 0 \<and>
   GetAllWallets storage0 = (Inr [wallet1, wallet2, wallet3], storage0) \<and>
   sync_calls manager0 [wallet1, wallet2, wallet3] =
     [SubscribeAccounts 7 [''0:bbbbbbbbbbbbbbbb''], UnsubscribeAccounts 7 [''0:cccccccccccccccc'']] \<and>
   (\<exists>m'. sync manager0 storage0 None None =
           (None, m', storage0,
            [SubscribeAccounts 7 [''0:bbbbbbbbbbbbbbbb''], UnsubscribeAccounts 7 [''0:cccccccccccccccc'']]) \<and>
         subscribed_set m' = {''0:aaaaaaaaaaaaaaaa'', ''0:bbbbbbbbbbbbbbbb''})"
proof -
  have h: "cache_ok manager0" "webhookID manager0 \<noteq> 0"
    "GetAllWallets storage0 = (Inr [wallet1, wallet2, wallet3], storage0)"
    by (simp_all add: sync_defs)
  have c: "sync_calls manager0 [wallet1, wallet2, wallet3] =
     [SubscribeAccounts 7 [''0:bbbbbbbbbbbbbbbb''], UnsubscribeAccounts 7 [''0:cccccccccccccccc'']]"
    by (simp add: sync_defs)
  have w: "AddressRaw ` set [wallet1, wallet2, wallet3] = {''0:aaaaaaaaaaaaaaaa'', ''0:bbbbbbbbbbbbbbbb''}"
    by (auto simp add: sync_defs)
  from sync_tick_reconciles[of manager0 storage0 "[wallet1, wallet2, wallet3]" storage0 None None] h
  show ?thesis unfolding c w by auto
qed

text \<open>
  C6. If the bulk subscribe fails, the tick adds nothing to the cache, and every
  address of \<open>toAdd\<close> that is still tracked is in \<open>toAdd\<close> again on the next
  tick (with the storage unchanged, the next \<open>toAdd\<close> is the same list). If the
  bulk unsubscribe fails, the tick removes nothing from the cache. If both fail the
  cache is what it was.
\<close>

theorem sync_failure_keeps_cache:
  "webhookID m \<noteq> 0 \<and> GetAllWallets s = (Inr ws, s1) \<and> sync m s subErr unsubErr = (r, m', s', calls) \<longrightarrow>
     (subErr \<noteq> None \<longrightarrow>
        (\<forall>a. map_get (subscribed m') a \<longrightarrow> map_get (subscribed m) a) \<and>
        (\<forall>ws' a. a \<in> set (toAdd_of (needed_of ws) (subscribed m)) \<and> a \<in> AddressRaw ` set ws' \<longrightarrow>
             a \<in> set (toAdd_of (needed_of ws') (subscribed m'))) \<and>
        toAdd_of (needed_of ws) (subscribed m') = toAdd_of (needed_of ws) (subscribed m)) \<and>
     (unsubErr \<noteq> None \<longrightarrow> subscribed_set m \<subseteq> subscribed_set m' \<and>
        (\<forall>a. map_get (subscribed m) a \<longrightarrow> map_get (subscribed m') a)) \<and>
     (subErr \<noteq> None \<and> unsubErr \<noteq> None \<longrightarrow> subscribed m' = subscribed m)"
proof (intro impI, elim conjE)
  assume wid: "webhookID m \<noteq> 0" and g: "GetAllWallets s = (Inr ws, s1)"
    and run: "sync m s subErr unsubErr = (r, m', s', calls)"
  define toAdd where "toAdd = toAdd_of (needed_of ws) (subscribed m)"
  define toRemove where "toRemove = toRemove_of (needed_of ws) (subscribed m)"
  have R: "set toRemove = {a \<in> fst ` set (subscribed m). a \<notin> AddressRaw ` set ws}"
    unfolding toRemove_def by (rule toRemove_set)
  have both: "subErr \<noteq> None \<and> unsubErr \<noteq> None \<longrightarrow> subscribed m' = subscribed m"
    using run unfolding sync_run[OF wid g] by (auto simp: Let_def)
  have sf: "subErr \<noteq> None \<Longrightarrow>
      subscribed m' = subscribed m \<or> subscribed m' = fold (\<lambda>addr sub. AList.delete addr sub) toRemove (subscribed m)"
    using run unfolding sync_run[OF wid g] toRemove_def by (auto simp: Let_def)
  have uf: "unsubErr \<noteq> None \<Longrightarrow>
      subscribed m' = subscribed m \<or> subscribed m' = fold (\<lambda>addr sub. AList.update addr True sub) toAdd (subscribed m)"
    using run unfolding sync_run[OF wid g] toAdd_def by (auto simp: Let_def)
  have s1: "subErr \<noteq> None \<Longrightarrow> map_get (subscribed m') a \<Longrightarrow> map_get (subscribed m) a" for a
    using sf by (auto simp: map_get_def map_of_fold_delete split: if_splits)
  have s2: "subErr \<noteq> None \<Longrightarrow> a \<in> set (toAdd_of (needed_of ws) (subscribed m)) \<Longrightarrow> a \<in> AddressRaw ` set ws'
              \<Longrightarrow> a \<in> set (toAdd_of (needed_of ws') (subscribed m'))" for ws' a
    using s1[of a] by (auto simp: toAdd_set)
  have s3: "subErr \<noteq> None \<Longrightarrow> map_get (subscribed m') a = map_get (subscribed m) a" if "a \<in> AddressRaw ` set ws" for a
    using sf that R by (auto simp: map_get_def map_of_fold_delete)
  have s4: "subErr \<noteq> None \<Longrightarrow> toAdd_of (needed_of ws) (subscribed m') = toAdd_of (needed_of ws) (subscribed m)"
    unfolding toAdd_of_def using s3 needed_keys[of ws] by (auto intro!: filter_cong)
  have u1: "unsubErr \<noteq> None \<Longrightarrow> subscribed_set m \<subseteq> subscribed_set m'"
  proof -
    assume "unsubErr \<noteq> None"
    from uf[OF this] have "fst ` set (subscribed m) \<subseteq> fst ` set (subscribed m')"
      by (auto simp only: keys_fold_update)
    then show ?thesis by (simp add: subscribed_set_def map_keys_def)
  qed
  have u2: "unsubErr \<noteq> None \<Longrightarrow> map_get (subscribed m) a \<Longrightarrow> map_get (subscribed m') a" for a
    using uf by (auto simp: map_get_def map_of_fold_update)
  show "(subErr \<noteq> None \<longrightarrow>
        (\<forall>a. map_get (subscribed m') a \<longrightarrow> map_get (subscribed m) a) \<and>
        (\<forall>ws' a. a \<in> set (toAdd_of (needed_of ws) (subscribed m)) \<and> a \<in> AddressRaw ` set ws' \<longrightarrow>
             a \<in> set (toAdd_of (needed_of ws') (subscribed m'))) \<and>
        toAdd_of (needed_of ws) (subscribed m') = toAdd_of (needed_of ws) (subscribed m)) \<and>
     (unsubErr \<noteq> None \<longrightarrow> subscribed_set m \<subseteq> subscribed_set m' \<and>
        (\<forall>a. map_get (subscribed m) a \<longrightarrow> map_get (subscribed m') a)) \<and>
     (subErr \<noteq> None \<and> unsubErr \<noteq> None \<longrightarrow> subscribed m' = subscribed m)"
    using both s1 s2 s4 u1 u2 by blast
qed

theorem sync_failure_keeps_cache_witness:
  "webhookID manager0 \<noteq> 0 \<and>
   GetAllWallets storage0 = (Inr [wallet1, wallet2, wallet3], storage0) \<and>
   sync manager0 storage0 (Some TransportError) None =
     (None, manager0\<lparr>subscribed := [(''0:aaaaaaaaaaaaaaaa'', True)]\<rparr>, storage0,
      [SubscribeAccounts 7 [''0:bbbbbbbbbbbbbbbb''], UnsubscribeAccounts 7 [''0:cccccccccccccccc'']]) \<and>
   toAdd_of (needed_of [wallet1, wallet2, wallet3]) (subscribed manager0) = [''0:bbbbbbbbbbbbbbbb''] \<and>
   toAdd_of (needed_of [wallet1, wallet2, wallet3]) [(''0:aaaaaaaaaaaaaaaa'', True)] =
     [''0:bbbbbbbbbbbbbbbb''] \<and>
   \<not> map_get [(''0:aaaaaaaaaaaaaaaa'', True)] ''0:bbbbbbbbbbbbbbbb''"
proof -
  have h: "webhookID manager0 \<noteq> 0"
    "GetAllWallets storage0 = (Inr [wallet1, wallet2, wallet3], storage0)"
    by (simp_all add: sync_defs)
  have r: "sync manager0 storage0 (Some TransportError) None =
     (None, manager0\<lparr>subscribed := [(''0:aaaaaaaaaaaaaaaa'', True)]\<rparr>, storage0,
      [SubscribeAccounts 7 [''0:bbbbbbbbbbbbbbbb''], UnsubscribeAccounts 7 [''0:cccccccccccccccc'']])"
    by (simp add: sync_def sync_defs)
  have t: "toAdd_of (needed_of [wallet1, wallet2, wallet3]) (subscribed manager0) = [''0:bbbbbbbbbbbbbbbb'']"
    by (simp add: sync_defs)
  have n: "\<not> map_get (subscribed manager0) ''0:bbbbbbbbbbbbbbbb''"
    by (simp add: sync_defs)
  from sync_failure_keeps_cache[of manager0 storage0 "[wallet1, wallet2, wallet3]" storage0
      "Some TransportError" None None "manager0\<lparr>subscribed := [(''0:aaaaaaaaaaaaaaaa'', True)]\<rparr>" storage0
      "[SubscribeAccounts 7 [''0:bbbbbbbbbbbbbbbb''], UnsubscribeAccounts 7 [''0:cccccccccccccccc'']]"]
    h r t n
  show ?thesis by auto
qed

section \<open>Backfill seeder\<close>

lemma gaw_no_fault:
  "faults s = [] \<Longrightarrow> \<exists>s1. GetAllWallets s = (Inr (wallets s), s1) \<and> faults s1 = [] \<and>
     wallets s1 = wallets s \<and> processed_events s1 = processed_events s"
  by (cases "conns s") (simp_all add: GetAllWallets_def next_fault_def next_conn_def)

lemma seed_events_nf:
  "faults s = [] \<Longrightarrow> seed_events wid evs s n = (es, s', n') \<Longrightarrow>
     faults s' = [] \<and> wallets s' = wallets s \<and>
     set (processed_events s') =
       set (processed_events s) \<union> set (map (\<lambda>ev. (wid, EventID ev)) (filter (\<lambda>ev. EventID ev \<noteq> []) evs)) \<and>
     filter is_dispatch es = [] \<and> fetch_warnings es = 0"
proof (induction evs arbitrary: s n es s' n')
  case Nil
  then show ?case by (simp add: fetch_warnings_def)
next
  case (Cons ev evs)
  show ?case
  proof (cases "EventID ev = []")
    case True
    then show ?thesis using Cons.IH[OF Cons.prems(1)] Cons.prems(2) by simp
  next
    case False
    obtain b s1 where m: "MarkEventProcessed s wid (EventID ev) = (Inr b, s1)"
      "faults s1 = []" "wallets s1 = wallets s"
      "set (processed_events s1) = insert (wid, EventID ev) (set (processed_events s))"
      using mark_no_fault[OF Cons.prems(1)] by blast
    define k where "k = (if b then n + 1 else n)"
    obtain es2 s2 n2 where r: "seed_events wid evs s1 k = (es2, s2, n2)"
      by (cases "seed_events wid evs s1 k") auto
    have e: "es = LedgerInsert wid (EventID ev) # es2" "s' = s2"
      using Cons.prems(2) False m(1) r by (auto simp: k_def Let_def)
    show ?thesis using Cons.IH[OF m(2) r] m False unfolding e
      by (auto simp: fetch_warnings_def)
  qed
qed

lemma seed_wallets_nf:
  "faults s = [] \<Longrightarrow> seed_wallets api i ws s n = (cs, es, s', n') \<Longrightarrow>
     faults s' = [] \<and> wallets s' = wallets s \<and>
     cs = map (\<lambda>w. GetEvents (AddressRaw w) 5) ws \<and>
     set (processed_events s') = set (processed_events s) \<union> set (seeded_entries api i ws) \<and>
     filter is_dispatch es = [] \<and> fetch_warnings es = fetch_failures api i ws"
proof (induction ws arbitrary: i s n cs es s' n')
  case Nil
  then show ?case by (simp add: fetch_warnings_def)
next
  case (Cons w ws)
  show ?case
  proof (cases "api i (AddressRaw w) 5")
    case (Inl err)
    obtain cs2 es2 s2 n2 where r: "seed_wallets api (Suc i) ws s n = (cs2, es2, s2, n2)"
      by (cases "seed_wallets api (Suc i) ws s n") auto
    have e: "cs = GetEvents (AddressRaw w) 5 # cs2" "es = Log Warn ''fetch events for seeding'' # es2" "s' = s2"
      using Cons.prems(2) Inl r by auto
    show ?thesis using Cons.IH[OF Cons.prems(1) r] Inl unfolding e
      by (simp add: fetch_warnings_def)
  next
    case (Inr events)
    obtain es1 s1 n1 where a: "seed_events (ID w) events s n = (es1, s1, n1)"
      by (cases "seed_events (ID w) events s n") auto
    note A = seed_events_nf[OF Cons.prems(1) a]
    obtain cs2 es2 s2 n2 where r: "seed_wallets api (Suc i) ws s1 n1 = (cs2, es2, s2, n2)"
      by (cases "seed_wallets api (Suc i) ws s1 n1") auto
    have e: "cs = GetEvents (AddressRaw w) 5 # cs2" "es = es1 @ es2" "s' = s2"
      using Cons.prems(2) Inr a r by auto
    have f: "faults s1 = []" using A by simp
    show ?thesis using Cons.IH[OF f r] Inr A unfolding e
      by (auto simp add: fetch_warnings_def)
  qed
qed

text \<open>
  C9. When the storage does not fail, the seeder asks upstream for the 5 most recent
  events of every wallet in storage, in order and whatever the earlier answers were;
  the ledger afterwards is the ledger before plus, for every wallet whose fetch
  succeeded, its id with each non-empty event id; no handler is started; and there is
  one warning per failed fetch.
\<close>

theorem seeding_marks_without_dispatch:
  "faults s = [] \<longrightarrow>
     (\<exists>es s' n. seedAllWallets api s = (map (\<lambda>w. GetEvents (AddressRaw w) 5) (wallets s), es, s', n) \<and>
        set (processed_events s') = set (processed_events s) \<union> set (seeded_entries api 0 (wallets s)) \<and>
        wallets s' = wallets s \<and>
        filter is_dispatch es = [] \<and>
        fetch_warnings es = fetch_failures api 0 (wallets s))"
proof
  assume nf: "faults s = []"
  obtain s1 where g: "GetAllWallets s = (Inr (wallets s), s1)" and k: "faults s1 = []"
    "wallets s1 = wallets s" "processed_events s1 = processed_events s"
    using gaw_no_fault[OF nf] by blast
  show "\<exists>es s' n. seedAllWallets api s = (map (\<lambda>w. GetEvents (AddressRaw w) 5) (wallets s), es, s', n) \<and>
        set (processed_events s') = set (processed_events s) \<union> set (seeded_entries api 0 (wallets s)) \<and>
        wallets s' = wallets s \<and>
        filter is_dispatch es = [] \<and>
        fetch_warnings es = fetch_failures api 0 (wallets s)"
  proof (cases "wallets s = []")
    case True
    then show ?thesis using g k by (simp add: seedAllWallets_def fetch_warnings_def)
  next
    case False
    obtain cs es s' n where r: "seed_wallets api 0 (wallets s) s1 0 = (cs, es, s', n)"
      by (cases "seed_wallets api 0 (wallets s) s1 0") auto
    note R = seed_wallets_nf[OF k(1) r]
    have "seedAllWallets api s = (cs, Log Info ''seeding wallets'' # es @ [Log Info ''seeding complete''], s', n)"
      using g False r by (simp add: seedAllWallets_def)
    then show ?thesis using R k by (simp add: fetch_warnings_def)
  qed
qed

lemmas seed_defs = seedAllWallets_def GetAllWallets_def next_fault_def next_conn_def
  MarkEventProcessed_def mark_insert_def mark_changes_def
  insert_or_ignore_def Let_def api0_def old_event_def fetch_warnings_def
  storage0_def wallet1_def wallet2_def wallet3_def

theorem seeding_marks_without_dispatch_witness:
  "faults storage0 = [] \<and>
   (\<exists>es s' n. seedAllWallets api0 storage0 =
        ([GetEvents ''0:aaaaaaaaaaaaaaaa'' 5, GetEvents ''0:aaaaaaaaaaaaaaaa'' 5,
          GetEvents ''0:bbbbbbbbbbbbbbbb'' 5], es, s', n) \<and>
      set (processed_events s') = {(1, ''old1''), (3, ''old2'')} \<and>
      filter is_dispatch es = [] \<and> fetch_warnings es = 1)"
proof -
  have nf: "faults storage0 = []" by (simp add: storage0_def)
  have w: "map (\<lambda>w. GetEvents (AddressRaw w) 5) (wallets storage0) =
      [GetEvents ''0:aaaaaaaaaaaaaaaa'' 5, GetEvents ''0:aaaaaaaaaaaaaaaa'' 5,
       GetEvents ''0:bbbbbbbbbbbbbbbb'' 5]"
    by (simp add: storage0_def wallet1_def wallet2_def wallet3_def)
  have e: "set (processed_events storage0) \<union> set (seeded_entries api0 0 (wallets storage0)) =
      {(1, ''old1''), (3, ''old2'')}"
    by (auto simp add: storage0_def wallet1_def wallet2_def wallet3_def api0_def old_event_def)
  have f: "fetch_failures api0 0 (wallets storage0) = 1"
    by (simp add: storage0_def wallet1_def wallet2_def wallet3_def api0_def)
  from seeding_marks_without_dispatch[of storage0 api0] nf
  show ?thesis unfolding w e f by auto
qed

section \<open>Removing and adding wallets\<close>

text \<open>What a \<open>RemoveWallet\<close> that returns no error has done: both DELETE statements
  ran.\<close>

lemma remove_ok:
  "RemoveWallet s userID walletID = (None, s') \<Longrightarrow>
     processed_events s' = filter (\<lambda>pe. fst pe \<noteq> walletID) (processed_events s) \<and>
     wallets s' = filter (\<lambda>w. \<not> (UserID w = userID \<and> ID w = walletID)) (wallets s) \<and>
     wallets_seq s' = wallets_seq s"
  by (auto simp: RemoveWallet_def Let_def next_fault_def next_conn_def
           split: list.splits if_splits bool.splits)

text \<open>When the storage does not fail, \<open>RemoveWallet\<close> returns no error.\<close>

lemma remove_succeeds:
  "faults s = [] \<Longrightarrow> \<exists>s'. RemoveWallet s userID walletID = (None, s')"
  by (auto simp: RemoveWallet_def Let_def next_fault_def next_conn_def split: list.splits)

lemma add_ok:
  "AddWallet s u nm raw disp mx now = (Inr w, s') \<Longrightarrow>
     ID w = wallets_seq s + 1 \<and> processed_events s' = processed_events s \<and>
     wallets s' = wallets s @ [w] \<and> wallets_seq s' = wallets_seq s + 1 \<and>
     AddressRaw w = raw \<and> UserID w = u \<and> ID w \<le> maxInt64"
  by (auto simp: AddWallet_def Let_def next_fault_def next_conn_def
           split: list.splits if_splits bool.splits)

lemma remove_keeps_bounded:
  "ids_bounded s \<Longrightarrow> RemoveWallet s userID walletID = (r, s') \<Longrightarrow> ids_bounded s'"
  by (fastforce simp: RemoveWallet_def Let_def next_fault_def next_conn_def ids_bounded_def list_all_iff
           split: list.splits if_splits bool.splits)

lemma add_keeps_bounded:
  "ids_bounded s \<Longrightarrow> AddWallet s u nm raw disp mx now = (r, s') \<Longrightarrow> ids_bounded s'"
  by (fastforce simp: AddWallet_def Let_def next_fault_def next_conn_def ids_bounded_def list_all_iff
           split: list.splits if_splits bool.splits)

lemma mark_keeps_bounded:
  assumes "ids_bounded s" "wid \<le> wallets_seq s" "MarkEventProcessed s wid e = (r, s')"
  shows "ids_bounded s' \<and> wallets_seq s' = wallets_seq s"
  using mark_tables[OF assms(3)] assms(1,2)
  by (fastforce simp: ids_bounded_def list_all_iff)

text \<open>
  C10. When the storage does not fail, \<open>RemoveWallet\<close> returns no error, and
  whenever it returns no error it has deleted from the ledger exactly the entries of
  that wallet id and from the table exactly that wallet of that user: the ledger has
  no entry for the id afterwards. And when no id in the table or in the ledger is
  above the AUTOINCREMENT counter (which every operation here preserves), a wallet
  added afterwards gets an id with no ledger entry.
\<close>

theorem remove_wallet_clears_ledger:
  "(faults s = [] \<longrightarrow>
      (\<exists>t. RemoveWallet s userID walletID = (None, t) \<and>
           processed_events t = filter (\<lambda>pe. fst pe \<noteq> walletID) (processed_events s) \<and>
           wallets t = filter (\<lambda>w. \<not> (UserID w = userID \<and> ID w = walletID)) (wallets s))) \<and>
   (RemoveWallet s userID walletID = (None, s') \<longrightarrow>
     processed_events s' = filter (\<lambda>pe. fst pe \<noteq> walletID) (processed_events s) \<and>
     wallets s' = filter (\<lambda>w. \<not> (UserID w = userID \<and> ID w = walletID)) (wallets s) \<and>
     (\<forall>e. (walletID, e) \<notin> set (processed_events s')) \<and>
     (\<forall>w \<in> set (wallets s'). \<not> (UserID w = userID \<and> ID w = walletID)) \<and>
     (ids_bounded s \<longrightarrow> ids_bounded s' \<and>
        (\<forall>u nm raw disp mx now w s''. AddWallet s' u nm raw disp mx now = (Inr w, s'') \<longrightarrow>
           (\<forall>e. (ID w, e) \<notin> set (processed_events s'')))))"
proof (intro conjI impI allI)
  assume nf: "faults s = []"
  from remove_succeeds[OF nf] obtain t where t: "RemoveWallet s userID walletID = (None, t)" by blast
  from remove_ok[OF t] t
  show "\<exists>t. RemoveWallet s userID walletID = (None, t) \<and>
           processed_events t = filter (\<lambda>pe. fst pe \<noteq> walletID) (processed_events s) \<and>
           wallets t = filter (\<lambda>w. \<not> (UserID w = userID \<and> ID w = walletID)) (wallets s)"
    by blast
next
  assume r: "RemoveWallet s userID walletID = (None, s')"
  note R = remove_ok[OF r]
  show "processed_events s' = filter (\<lambda>pe. fst pe \<noteq> walletID) (processed_events s)"
    using R by simp
  show "wallets s' = filter (\<lambda>w. \<not> (UserID w = userID \<and> ID w = walletID)) (wallets s)"
    using R by simp
  show "(walletID, e) \<notin> set (processed_events s')" for e using R by auto
  show "\<forall>w \<in> set (wallets s'). \<not> (UserID w = userID \<and> ID w = walletID)" using R by auto
  assume b: "ids_bounded s"
  show b': "ids_bounded s'" using remove_keeps_bounded[OF b r] .
  fix u nm raw disp mx now w s'' e
  assume a: "AddWallet s' u nm raw disp mx now = (Inr w, s'')"
  note A = add_ok[OF a]
  show "(ID w, e) \<notin> set (processed_events s'')"
    using A b' by (auto simp: ids_bounded_def list_all_iff)
qed

lemmas wallet_defs = storage0_def storage1_def storage2_def storage3_def
  wallet1_def wallet2_def wallet3_def wallet4_def

theorem remove_wallet_clears_ledger_witness:
  "faults storage1 = [] \<and>
   RemoveWallet storage1 100 1 = (None, storage2) \<and>
   processed_events storage1 = [(1, ''ev1''), (2, ''ev1'')] \<and>
   processed_events storage2 = [(2, ''ev1'')] \<and>
   wallets storage2 = [wallet2, wallet3] \<and>
   (\<forall>e. (1, e) \<notin> set (processed_events storage2)) \<and>
   ids_bounded storage1 \<and>
   AddWallet storage2 100 ''main'' ''0:aaaaaaaaaaaaaaaa'' ''UQaaaa'' 10 0 = (Inr wallet4, storage3) \<and>
   (\<forall>e. (ID wallet4, e) \<notin> set (processed_events storage3))"
proof -
  have nf: "faults storage1 = []" by (simp add: wallet_defs)
  have r: "RemoveWallet storage1 100 1 = (None, storage2)"
    by (simp add: RemoveWallet_def next_fault_def next_conn_def Let_def wallet_defs)
  have b: "ids_bounded storage1" by (simp add: ids_bounded_def wallet_defs)
  have a: "AddWallet storage2 100 ''main'' ''0:aaaaaaaaaaaaaaaa'' ''UQaaaa'' 10 0 = (Inr wallet4, storage3)"
    by (simp add: AddWallet_def next_fault_def next_conn_def Let_def maxInt64_def wallet_defs)
  have p: "processed_events storage1 = [(1, ''ev1''), (2, ''ev1'')]"
    "processed_events storage2 = [(2, ''ev1'')]" "wallets storage2 = [wallet2, wallet3]"
    by (simp_all add: wallet_defs)
  from remove_wallet_clears_ledger[of storage1 100 1 storage2] nf r b a p
  show ?thesis by blast
qed

lemma mad_keeps_bounded:
  "ids_bounded s \<Longrightarrow> \<forall>w \<in> set ws. ID w \<le> wallets_seq s \<Longrightarrow> mark_and_dispatch ws ev s = (es, s') \<Longrightarrow>
     ids_bounded s' \<and> wallets_seq s' = wallets_seq s"
proof (induction ws arbitrary: s es s')
  case Nil
  then show ?case by simp
next
  case (Cons w ws)
  obtain r s1 where m: "MarkEventProcessed s (ID w) (EventID ev) = (r, s1)"
    by (cases "MarkEventProcessed s (ID w) (EventID ev)")
  obtain es2 s2 where rr: "mark_and_dispatch ws ev s1 = (es2, s2)"
    by (cases "mark_and_dispatch ws ev s1")
  have s2: "s' = s2" using Cons.prems(3) m rr by (auto split: sum.splits if_splits)
  have k: "ids_bounded s1 \<and> wallets_seq s1 = wallets_seq s"
    using mark_keeps_bounded[OF Cons.prems(1) _ m] Cons.prems(2) by simp
  then show ?case using Cons.IH[OF _ _ rr] Cons.prems(2) unfolding s2 by simp
qed

lemma processTransaction_keeps_bounded:
  assumes "ids_bounded s" "processTransaction p f s = Inr (es, s')"
  shows "ids_bounded s'"
proof -
  obtain r s1 where g: "GetWalletsByRaw s (AccountID p) = (r, s1)"
    by (cases "GetWalletsByRaw s (AccountID p)")
  note K = gwr_keeps[OF g]
  have b1: "ids_bounded s1" "wallets_seq s1 = wallets_seq s" "wallets s1 = wallets s"
    using K assms(1) by (simp_all add: ids_bounded_def)
  have ws: "r = Inr ws \<Longrightarrow> \<forall>w \<in> set ws. ID w \<le> wallets_seq s1" for ws
    using K assms(1) by (auto simp: ids_bounded_def list_all_iff)
  show ?thesis
  proof (cases r)
    case (Inl e)
    then show ?thesis using assms g b1 by (auto simp: processTransaction_def)
  next
    case (Inr ws)
    obtain ges ge where ge: "get_event p f = (ges, ge)" by (cases "get_event p f")
    show ?thesis
    proof (cases "length ws = 0 \<or> ge = None \<or> EventID (the ge) = []")
      case True
      then have "s' = s1" using assms g Inr ge
        by (auto simp: processTransaction_def split: sum.splits if_splits option.splits)
      then show ?thesis using b1 by simp
    next
      case False
      then obtain ev where ev: "ge = Some ev" "EventID ev \<noteq> []" "length ws \<noteq> 0" by auto
      obtain ds s2 where m: "mark_and_dispatch ws ev s1 = (ds, s2)"
        by (cases "mark_and_dispatch ws ev s1")
      have "s' = s2" using assms g Inr ge ev m by (auto simp: processTransaction_def)
      then show ?thesis using mad_keeps_bounded[OF b1(1) ws[OF Inr] m] by simp
    qed
  qed
qed

section \<open>The invariants are kept\<close>

text \<open>The guarded cut never fails; the cache invariant holds for a new manager and
  is kept by every tick; the bound on the ids is kept by the seeder too.\<close>

lemma truncate_str_length: "length (truncate_str s n) \<le> n + 3"
  by (simp add: truncate_str_def)

lemma NewManager_cache_ok: "cache_ok (NewManager ep) \<and> subscribed_set (NewManager ep) = {}"
  by (simp add: NewManager_def cache_ok_def subscribed_set_def map_keys_def)

lemma sync_keeps_cache_ok:
  assumes ok: "cache_ok m" and run: "sync m s subErr unsubErr = (r, m', s', calls)"
  shows "cache_ok m'"
proof (cases "webhookID m = 0")
  case True
  then show ?thesis using ok run by (simp add: sync_def)
next
  case False
  obtain g s1 where g: "GetAllWallets s = (g, s1)" by (cases "GetAllWallets s")
  show ?thesis
  proof (cases g)
    case (Inl e)
    then show ?thesis using ok run False g by (simp add: sync_def)
  next
    case (Inr ws)
    have "list_all snd (subscribed m')"
      using run ok unfolding sync_run[OF False g[unfolded Inr]]
      by (auto simp: Let_def cache_ok_def values_fold_update values_fold_delete split: if_splits)
    then show ?thesis by (simp add: cache_ok_def)
  qed
qed

lemma seed_events_keeps_bounded:
  "ids_bounded s \<Longrightarrow> wid \<le> wallets_seq s \<Longrightarrow> seed_events wid evs s n = (es, s', n') \<Longrightarrow>
     ids_bounded s' \<and> wallets_seq s' = wallets_seq s \<and> wallets s' = wallets s"
proof (induction evs arbitrary: s n es s' n')
  case Nil
  then show ?case by simp
next
  case (Cons ev evs)
  show ?case
  proof (cases "EventID ev = []")
    case True
    then show ?thesis using Cons.IH[OF Cons.prems(1,2)] Cons.prems(3) by simp
  next
    case False
    obtain r s1 where m: "MarkEventProcessed s wid (EventID ev) = (r, s1)"
      by (cases "MarkEventProcessed s wid (EventID ev)")
    define k where "k = (if (case r of Inr b \<Rightarrow> b | Inl err \<Rightarrow> False) then n + 1 else n)"
    obtain es2 s2 n2 where rr: "seed_events wid evs s1 k = (es2, s2, n2)"
      by (cases "seed_events wid evs s1 k") auto
    have e: "s' = s2" using Cons.prems(3) False m rr by (auto simp: k_def Let_def)
    have b: "ids_bounded s1 \<and> wallets_seq s1 = wallets_seq s"
      using mark_keeps_bounded[OF Cons.prems(1,2) m] .
    have w: "wallets s1 = wallets s" using mark_tables[OF m] by simp
    show ?thesis using Cons.IH[OF _ _ rr] b w Cons.prems(2) unfolding e by simp
  qed
qed

lemma seed_wallets_keeps_bounded:
  "ids_bounded s \<Longrightarrow> \<forall>w \<in> set ws. ID w \<le> wallets_seq s \<Longrightarrow>
   seed_wallets api i ws s n = (cs, es, s', n') \<Longrightarrow> ids_bounded s'"
proof (induction ws arbitrary: i s n cs es s' n')
  case Nil
  then show ?case by simp
next
  case (Cons w ws)
  show ?case
  proof (cases "api i (AddressRaw w) 5")
    case (Inl err)
    obtain cs2 es2 s2 n2 where r: "seed_wallets api (Suc i) ws s n = (cs2, es2, s2, n2)"
      by (cases "seed_wallets api (Suc i) ws s n") auto
    have e: "s' = s2" using Cons.prems(3) Inl r by auto
    show ?thesis using Cons.IH[OF Cons.prems(1) _ r] Cons.prems(2) unfolding e by simp
  next
    case (Inr events)
    obtain es1 s1 n1 where a: "seed_events (ID w) events s n = (es1, s1, n1)"
      by (cases "seed_events (ID w) events s n") auto
    have A: "ids_bounded s1 \<and> wallets_seq s1 = wallets_seq s \<and> wallets s1 = wallets s"
      using seed_events_keeps_bounded[OF Cons.prems(1) _ a] Cons.prems(2) by simp
    obtain cs2 es2 s2 n2 where r: "seed_wallets api (Suc i) ws s1 n1 = (cs2, es2, s2, n2)"
      by (cases "seed_wallets api (Suc i) ws s1 n1") auto
    have e: "s' = s2" using Cons.prems(3) Inr a r by auto
    show ?thesis using Cons.IH[OF _ _ r] A Cons.prems(2) unfolding e by simp
  qed
qed

lemma seedAllWallets_keeps_bounded:
  assumes "ids_bounded s" "seedAllWallets api s = (cs, es, s', n)"
  shows "ids_bounded s'"
proof -
  obtain g s1 where g: "GetAllWallets s = (g, s1)" by (cases "GetAllWallets s")
  have b1: "ids_bounded s1" "g = Inr ws \<Longrightarrow> \<forall>w \<in> set ws. ID w \<le> wallets_seq s1" for ws
    using g assms(1)
    by (fastforce simp: GetAllWallets_def next_fault_def next_conn_def ids_bounded_def list_all_iff
          split: list.splits bool.splits)+
  show ?thesis
  proof (cases g)
    case (Inl e)
    then show ?thesis using assms(2) g b1 by (simp add: seedAllWallets_def)
  next
    case (Inr ws)
    show ?thesis
    proof (cases "length ws = 0")
      case True
      then show ?thesis using assms(2) g Inr b1 by (simp add: seedAllWallets_def)
    next
      case False
      obtain cs2 es2 s2 n2 where r: "seed_wallets api 0 ws s1 0 = (cs2, es2, s2, n2)"
        by (cases "seed_wallets api 0 ws s1 0") auto
      have "s' = s2" using assms(2) g Inr False r by (simp add: seedAllWallets_def)
      then show ?thesis using seed_wallets_keeps_bounded[OF b1(1) b1(2)[OF Inr] r] by simp
    qed
  qed
qed

section \<open>Rate-limited client: the throttle\<close>

lemma dur_sub_small: "0 < a - b \<Longrightarrow> a - b \<le> maxDuration \<Longrightarrow> dur_sub a b = a - b"
proof -
  assume p: "0 < a - b" and q: "a - b \<le> maxDuration"
  have "(a - b + 2 ^ 63) mod 2 ^ 64 = a - b + 2 ^ 63"
    using p q by (intro mod_pos_pos_trivial) (simp_all add: maxDuration_def)
  then show ?thesis by (simp add: dur_sub_def)
qed

lemma throttle_minDelay [simp]: "minDelay (throttle c now l) = minDelay c"
  by (simp add: throttle_def Let_def)

lemma throttle_stamp:
  assumes "minDelay c \<le> maxDuration"
  shows "lastCall c + minDelay c \<le> lastCall (throttle c (lastCall c + int g) l)"
proof -
  define elapsed where "elapsed = time_sub (lastCall c + int g) (lastCall c)"
  have e: "elapsed = (if int g > maxDuration then maxDuration else int g)"
    by (simp add: elapsed_def time_sub_def Let_def minDuration_def)
  show ?thesis
  proof (cases "elapsed < minDelay c")
    case True
    then have eg: "elapsed = int g" using e assms by (auto split: if_splits)
    have "dur_sub (minDelay c) elapsed = minDelay c - elapsed"
      using True eg assms by (intro dur_sub_small) auto
    then have "sleep_for (dur_sub (minDelay c) elapsed) = minDelay c - int g"
      using True eg by (simp add: sleep_for_def)
    then show ?thesis using True
      by (simp add: throttle_def Let_def elapsed_def[symmetric])
  next
    case False
    then have "minDelay c \<le> int g" using e by (auto split: if_splits)
    then show ?thesis using False
      by (simp add: throttle_def Let_def elapsed_def[symmetric])
  qed
qed

lemma doRequest_parts:
  "client_after (doRequest c cl) = throttle c (lastCall c + int (gap cl)) (late cl) \<and>
   released_at (doRequest c cl) = lastCall (throttle c (lastCall c + int (gap cl)) (late cl)) \<and>
   sent_at (doRequest c cl) =
     (if marshal_ok cl \<and> request_ok cl
      then Some (released_at (doRequest c cl) + int (prep cl)) else None) \<and>
   returned_at (doRequest c cl) =
     released_at (doRequest c cl) + int (prep cl) +
       (if marshal_ok cl \<and> request_ok cl then int (took cl) else 0)"
  by (simp add: doRequest_def client_after_def released_at_def sent_at_def returned_at_def Let_def)

lemma release_times_Cons:
  "release_times c (cl # cls) =
     released_at (doRequest c cl) # release_times (client_after (doRequest c cl)) cls"
  by (simp add: release_times_def)

lemma spaced_from:
  "minDelay c \<le> maxDuration \<Longrightarrow> spaced (minDelay c) (lastCall c # release_times c cls)"
proof (induction cls arbitrary: c)
  case Nil
  then show ?case by (simp add: release_times_def)
next
  case (Cons cl cls)
  define c1 where "c1 = client_after (doRequest c cl)"
  have m: "minDelay c1 = minDelay c" and l: "lastCall c1 = released_at (doRequest c cl)"
    by (simp_all add: c1_def doRequest_parts)
  have step: "minDelay c \<le> lastCall c1 - lastCall c"
    using throttle_stamp[OF Cons.prems, of "gap cl" "late cl"] by (simp add: c1_def doRequest_parts)
  have "spaced (minDelay c1) (lastCall c1 # release_times c1 cls)"
    using Cons.IH[of c1] Cons.prems m by simp
  then show ?case using step unfolding release_times_Cons c1_def[symmetric] l[symmetric] m by simp
qed

lemma spaced_tail: "spaced d (x # xs) \<Longrightarrow> spaced d xs"
  by (cases xs) auto

lemma sent_after_release_all: "list_all sent_after_release (call_times c cls)"
  by (induction cls arbitrary: c) (simp_all add: doRequest_parts)

lemmas time_defs = doRequest_def throttle_def time_sub_def dur_sub_def sleep_for_def Let_def
  Millisecond_def Second_def maxDuration_def minDuration_def zero_time_def

lemma client0_eq:
  "client0 = \<lparr>baseURL = ''https://tonapi.io/v2'', apiKey = ''key'', httpTimeout = 30000000000,
     lastCall = - 62135596800000000000, minDelay = 250000000\<rparr>"
  by (simp add: client0_def NewClient_def TrimSuffix_def Millisecond_def Second_def zero_time_def)

lemma run_a:
  "doRequest client0 call_a =
     (Inr ''{}'', client1, 1700000000000000000, Some 1700000000000000000, 1700000000300000000)"
  unfolding client1_def client0_eq by (simp add: call_a_def time_defs)

lemma run_b:
  "doRequest client1 call_b =
     (Inl (ApiError 500 ''busy''), client2, 1700000000300000000, Some 1700000000300000000,
      1700000000320000000)"
  unfolding client1_def client2_def client0_eq by (simp add: call_b_def time_defs)

lemma run_c:
  "doRequest client2 call_c =
     (Inr ''{}'', client3, 1700000000550001000, Some 1700000000550001000, 1700000000570001000)"
  unfolding client2_def client3_def client0_eq by (simp add: call_c_def time_defs)

lemma run_d:
  "doRequest client0 call_d =
     (Inr ''{}'', client1, 1700000000000000000, Some 1700000000200000000, 1700000000210000000)"
  unfolding client1_def client0_eq by (simp add: call_d_def time_defs)

lemma run_e:
  "doRequest client1 call_e =
     (Inr ''{}'', client4, 1700000000250000000, Some 1700000000250000000, 1700000000260000000)"
  unfolding client1_def client4_def client0_eq by (simp add: call_e_def time_defs)

lemmas part_defs = client_after_def released_at_def sent_at_def returned_at_def

text \<open>
  C4, as stated, fails: the throttle spaces the stamps, and a request is built and
  sent after \<open>throttle\<close> has returned and released the mutex. The first call is
  released at its stamp and sends its request 200ms later; the second, entering when
  the first has returned, is released 250ms after the first stamp and sends at once:
  the two requests start 50ms apart.
\<close>

theorem request_starts_closer_than_interval:
  "send_times client0 [call_d, call_e] = [1700000000200000000, 1700000000250000000] \<and>
   returned_at (doRequest client0 call_d) =
     lastCall (client_after (doRequest client0 call_d)) + int (gap call_e) \<and>
   \<not> spaced (250 * Millisecond) (send_times client0 [call_d, call_e])"
proof -
  have s: "send_times client0 [call_d, call_e] = [1700000000200000000, 1700000000250000000]"
    by (simp add: send_times_def List.map_filter_simps run_d run_e part_defs)
  have r: "returned_at (doRequest client0 call_d) =
     lastCall (client_after (doRequest client0 call_d)) + int (gap call_e)"
    unfolding run_d by (simp add: part_defs client1_def client0_eq call_e_def)
  show ?thesis unfolding s using r by (simp add: Millisecond_def)
qed

text \<open>
  C4, amended. For any sequence of calls through one client, in the order in which the
  mutex lets them into the throttle (so also for concurrent callers), the stamps at
  which consecutive calls are released are at least the client's minimum interval
  apart, and the first is that far from the stamp the client held before; for a
  client made by \<open>NewClient\<close> the interval is 250ms. No request is sent before the
  stamp of its call.
\<close>

theorem release_times_spaced:
  "(minDelay c \<le> maxDuration \<longrightarrow> spaced (minDelay c) (lastCall c # release_times c cls)) \<and>
   spaced (250 * Millisecond) (release_times (NewClient url key) cls) \<and>
   list_all sent_after_release (call_times c cls)"
proof (intro conjI)
  show "minDelay c \<le> maxDuration \<longrightarrow> spaced (minDelay c) (lastCall c # release_times c cls)"
    using spaced_from by blast
  have "minDelay (NewClient url key) \<le> maxDuration"
    by (simp add: NewClient_def Millisecond_def maxDuration_def)
  from spaced_tail[OF spaced_from[OF this, of cls]]
  show "spaced (250 * Millisecond) (release_times (NewClient url key) cls)"
    by (simp add: NewClient_def)
  show "list_all sent_after_release (call_times c cls)"
    by (rule sent_after_release_all)
qed

theorem release_times_spaced_witness:
  "minDelay client0 \<le> maxDuration \<and>
   release_times client0 [call_a, call_b, call_c] =
     [1700000000000000000, 1700000000300000000, 1700000000550001000] \<and>
   spaced (minDelay client0) (lastCall client0 # release_times client0 [call_a, call_b, call_c]) \<and>
   release_times client0 [call_d, call_e] = [1700000000000000000, 1700000000250000000] \<and>
   spaced (minDelay client0) (lastCall client0 # release_times client0 [call_d, call_e]) \<and>
   list_all sent_after_release (call_times client0 [call_d, call_e])"
proof -
  have h: "minDelay client0 \<le> maxDuration" by (simp add: client0_eq maxDuration_def)
  have t: "release_times client0 [call_a, call_b, call_c] =
     [1700000000000000000, 1700000000300000000, 1700000000550001000]"
    "release_times client0 [call_d, call_e] = [1700000000000000000, 1700000000250000000]"
    by (simp_all add: release_times_def run_a run_b run_c run_d run_e part_defs)
  from release_times_spaced[of client0 "[call_a, call_b, call_c]"]
    release_times_spaced[of client0 "[call_d, call_e]"] h t
  show ?thesis by simp
qed




end
